theory Spec2Isabelle
  imports Complex_Main "HOL-Library.Word"
begin

section \<open>Container statistics sampler (container/container.go)\<close>

text \<open>
  The package samples the Docker statistics of every running container twice, one interval
  apart, turns the two readings into a CPU and a memory percentage, and installs the
  results of all containers as one map in the package-level store \<open>Cstats\<close>.

  The embedding follows the source function by function: \<open>calculateCPUPercent\<close>,
  \<open>collectStats\<close> and \<open>GetContainerStats\<close>. The Docker daemon is an input of the model:
  its answers are given by a record \<open>environment\<close>. A panic is the \<open>Inl\<close> of a sum.
\<close>

subsection \<open>Go's float64\<close>

text \<open>
  A finite float64 is a rational number. Every arithmetic operation of Go computes the
  exact result and rounds it to the nearest number with a 53-bit significand, ties to the
  even significand; \<open>round_float64\<close> is that rounding. The model has no exponent limits,
  no infinities and no NaN. It is exact where float64 neither overflows nor underflows.
  The range lemmas below bound both percentages of the package (and, in their proofs, the
  quotient and the products they are made of) far below the largest float64, and both
  divisions are guarded against a zero divisor.
\<close>

type_synonym float64 = rat

function bit_length :: "int \<Rightarrow> nat" where
  "bit_length n = (if n \<le> 0 then 0 else Suc (bit_length (n div 2)))"
  by pat_completeness auto
termination
  by (relation "measure nat") auto

declare bit_length.simps [simp del]

definition exponent_of :: "rat \<Rightarrow> int" where
  \<comment> \<open>for \<open>0 < x\<close>: the \<open>e\<close> with \<open>2 powi e \<le> x < 2 powi (e + 1)\<close>\<close>
  "exponent_of x =
     (if 1 \<le> x then int (bit_length \<lfloor>x\<rfloor>) - 1
      else let k = int (bit_length \<lfloor>1 / x\<rfloor>) - 1
           in if x = 2 powi (- k) then - k else - k - 1)"

definition round_half_even :: "rat \<Rightarrow> int" where
  "round_half_even m =
     (let f = \<lfloor>m\<rfloor>; r = m - of_int f
      in if r < 1 / 2 then f
         else if 1 / 2 < r then f + 1
         else if even f then f else f + 1)"

definition round_float64 :: "rat \<Rightarrow> float64" where
  "round_float64 x =
     (if x = 0 then 0
      else let a = \<bar>x\<bar>; u = 2 powi (exponent_of a - 52)
           in sgn x * of_int (round_half_even (a / u)) * u)"

definition float64_max :: float64 where
  \<comment> \<open>\<open>math.MaxFloat64\<close>\<close>
  "float64_max = (2 ^ 53 - 1) * 2 ^ 971"

definition float64_of_uint :: "'a::len word \<Rightarrow> float64" where
  \<comment> \<open>the conversion \<open>float64(v)\<close> of an unsigned integer\<close>
  "float64_of_uint w = round_float64 (of_int (uint w))"

definition float64_of_int :: "int \<Rightarrow> float64" where
  "float64_of_int i = round_float64 (of_int i)"

definition fsub :: "float64 \<Rightarrow> float64 \<Rightarrow> float64" where
  "fsub a b = round_float64 (a - b)"

definition fmul :: "float64 \<Rightarrow> float64 \<Rightarrow> float64" where
  "fmul a b = round_float64 (a * b)"

definition fdiv :: "float64 \<Rightarrow> float64 \<Rightarrow> float64" where
  \<comment> \<open>only used with \<open>b \<noteq> 0\<close>: both divisions of the package are guarded\<close>
  "fdiv a b = round_float64 (a / b)"

subsection \<open>The statistics types of the Docker API\<close>

text \<open>
  \<open>container.StatsResponse\<close> and \<open>container.Summary\<close> are declared in the Docker API
  module, not in this repository. Only the fields the package reads are kept, with the
  integer types of that declaration: the counters are unsigned 64-bit integers and the
  number of online CPUs is an unsigned 32-bit integer.
\<close>

type_synonym uint64 = "64 word"
type_synonym uint32 = "32 word"

record CPUUsage =
  TotalUsage :: uint64

record CPUStats =
  CPUUsage :: CPUUsage
  SystemUsage :: uint64
  OnlineCPUs :: uint32

record MemoryStats =
  Usage :: uint64
  Stats :: "string \<rightharpoonup> uint64"
  Limit :: uint64

record StatsResponse =
  CPUStats :: CPUStats
  MemoryStats :: MemoryStats

record Summary =
  ID :: string
  Names :: "string list"

subsection \<open>The store\<close>

type_synonym MetricResult = "string \<rightharpoonup> float64"
type_synonym Aggregate = "string \<rightharpoonup> MetricResult"

datatype owner = Orchestrator | Reader nat

record ContainerStats =
  Interval :: int
  Stats :: Aggregate
  StMu :: "owner option"  \<comment> \<open>the mutex: \<open>None\<close> when unlocked, else its holder\<close>

definition Init :: "int \<Rightarrow> ContainerStats" where
  "Init i = \<lparr>Interval = i, Stats = Map.empty, StMu = None\<rparr>"

subsection \<open>calculateCPUPercent\<close>

definition calculateCPUPercent :: "StatsResponse \<Rightarrow> StatsResponse \<Rightarrow> float64" where
  "calculateCPUPercent current previous =
     (let cpuDelta = float64_of_uint
            (TotalUsage (CPUUsage (CPUStats current)) - TotalUsage (CPUUsage (CPUStats previous)));
          systemDelta = float64_of_uint
            (SystemUsage (CPUStats current) - SystemUsage (CPUStats previous));
          onlineCPUs = float64_of_uint (OnlineCPUs (CPUStats current))
      in if systemDelta \<le> 0 \<or> onlineCPUs \<le> 0 then 0
         else fmul (fmul (fdiv cpuDelta systemDelta) onlineCPUs) 100)"

subsection \<open>collectStats\<close>

text \<open>The memory percentage is computed inline in \<open>collectStats\<close> (lines 85 to 95).\<close>

definition memUsage :: "StatsResponse \<Rightarrow> float64" where
  "memUsage currentStats =
     (let usage = float64_of_uint (Usage (MemoryStats currentStats))
      in case MemoryStats.Stats (MemoryStats currentStats) ''cache'' of
           Some cache \<Rightarrow> fsub usage (float64_of_uint cache)
         | None \<Rightarrow> usage)"

definition memPercent :: "StatsResponse \<Rightarrow> float64" where
  "memPercent currentStats =
     (let memLimit = float64_of_uint (Limit (MemoryStats currentStats))
      in if 0 < memLimit then fmul (fdiv (memUsage currentStats) memLimit) 100 else 0)"

definition TrimPrefix :: "string \<Rightarrow> string \<Rightarrow> string" where
  \<comment> \<open>\<open>strings.TrimPrefix\<close>\<close>
  "TrimPrefix s p = (if take (length p) s = p then drop (length p) s else s)"

datatype panic = IndexOutOfRange

datatype stats_reply =
    FetchError                \<comment> \<open>\<open>cli.ContainerStats\<close> returned an error\<close>
  | DecodeError               \<comment> \<open>the body did not decode\<close>
  | Decoded StatsResponse

datatype event =
    Fetch string              \<comment> \<open>a call of \<open>cli.ContainerStats\<close> with this container ID\<close>
  | Sleep int                 \<comment> \<open>\<open>time.Sleep\<close> of so many seconds\<close>
  | Send Aggregate            \<comment> \<open>a send on \<open>resultChan\<close>\<close>

definition error_result :: MetricResult where
  "error_result = [''error'' \<mapsto> 1]"

definition first_name :: "Summary \<Rightarrow> panic + string" where
  \<comment> \<open>\<open>containerSummary.Names[0]\<close>\<close>
  "first_name s = (case Names s of [] \<Rightarrow> Inl IndexOutOfRange | n # _ \<Rightarrow> Inr n)"

definition send_error :: "Summary \<Rightarrow> event list \<Rightarrow> panic + event list" where
  \<comment> \<open>\<open>resultChan <- {Names[0]: {"error": 1.0}}; return\<close>, after the events \<open>evs\<close>\<close>
  "send_error s evs =
     (case first_name s of
        Inl p \<Rightarrow> Inl p
      | Inr n \<Rightarrow> Inr (evs @ [Send [n \<mapsto> error_result]]))"

definition send_stats :: "Summary \<Rightarrow> StatsResponse \<Rightarrow> StatsResponse \<Rightarrow> event list \<Rightarrow> panic + event list" where
  "send_stats s prevStats currentStats evs =
     (let cpuPercent = calculateCPUPercent currentStats prevStats;
          mem = memPercent currentStats
      in case first_name s of
           Inl p \<Rightarrow> Inl p
         | Inr n \<Rightarrow>
             Inr (evs @ [Send [TrimPrefix n ''/'' \<mapsto> [''cpu'' \<mapsto> cpuPercent, ''mem'' \<mapsto> mem]]]))"

definition collectStats ::
  "ContainerStats \<Rightarrow> Summary \<Rightarrow> stats_reply \<Rightarrow> stats_reply \<Rightarrow> panic + event list" where
  \<comment> \<open>\<open>r1\<close> and \<open>r2\<close> are what the first and the second call of \<open>cli.ContainerStats\<close> give;
     the result is the trace of the sampler, or the panic that ends it\<close>
  "collectStats cs s r1 r2 =
     (case r1 of
        FetchError \<Rightarrow> send_error s [Fetch (ID s)]
      | DecodeError \<Rightarrow> send_error s [Fetch (ID s)]
      | Decoded prevStats \<Rightarrow>
          (case r2 of
             FetchError \<Rightarrow> send_error s [Fetch (ID s), Sleep (Interval cs), Fetch (ID s)]
           | DecodeError \<Rightarrow> send_error s [Fetch (ID s), Sleep (Interval cs), Fetch (ID s)]
           | Decoded currentStats \<Rightarrow>
               send_stats s prevStats currentStats
                 [Fetch (ID s), Sleep (Interval cs), Fetch (ID s)]))"

subsection \<open>GetContainerStats\<close>

text \<open>
  What the cycle cannot decide itself is an input: whether \<open>client.New\<close> succeeds, what
  \<open>ContainerList\<close> returns, what the two statistics calls of the sampler of the \<open>i\<close>-th
  listed container give, and the order in which the samplers' sends arrive on the channel.

  The samplers run as goroutines. Each owns its two readings and shares nothing with the
  others but the channel, whose capacity is the number of samplers, so no send blocks;
  \<open>wg.Wait()\<close> returns only after all of them have finished. The cycle is therefore the
  samplers' runs followed by the draining of the channel in arrival order. A panic in any
  goroutine ends the whole process. The log calls are left out, and so is the mutex here:
  the next subsection has it.
\<close>

record environment =
  client_ok :: bool
  listing :: "Summary list option"
  replies :: "nat \<Rightarrow> stats_reply \<times> stats_reply"
  arrival :: "nat list"

record cycle =
  store :: ContainerStats
  traces :: "event list list"      \<comment> \<open>the trace of every sampler that was started\<close>

definition samplers ::
  "environment \<Rightarrow> ContainerStats \<Rightarrow> Summary list \<Rightarrow> (panic + event list) list" where
  "samplers env cs items =
     map (\<lambda>i. collectStats cs (items ! i) (fst (replies env i)) (snd (replies env i)))
       [0..<length items]"

fun sends :: "event list \<Rightarrow> Aggregate list" where
  "sends [] = []"
| "sends (Send m # evs) = m # sends evs"
| "sends (Fetch c # evs) = sends evs"
| "sends (Sleep n # evs) = sends evs"

definition resultChan :: "nat list \<Rightarrow> event list list \<Rightarrow> Aggregate list" where
  \<comment> \<open>the channel after \<open>close\<close>: what the samplers sent, in arrival order
     (an index of the order that names no sampler counts for nothing)\<close>
  "resultChan order trs = concat (map (\<lambda>i. sends (trs ! i)) [i \<leftarrow> order. i < length trs])"

definition aggregate :: "Aggregate list \<Rightarrow> Aggregate" where
  \<comment> \<open>\<open>make\<close> and the \<open>maps.Copy\<close> of every received result, lines 202 to 205\<close>
  "aggregate chan = foldl (++) Map.empty chan"

definition GetContainerStats :: "environment \<Rightarrow> ContainerStats \<Rightarrow> panic + cycle" where
  "GetContainerStats env cs =
     (if \<not> client_ok env then Inr \<lparr>store = cs, traces = []\<rparr>
      else case listing env of
        None \<Rightarrow> Inr \<lparr>store = cs, traces = []\<rparr>
      | Some items \<Rightarrow>
          let runs = samplers env cs items
          in if list_ex isl runs then Inl IndexOutOfRange
             else let trs = map projr runs
                  in Inr \<lparr>store = cs\<lparr>Stats := aggregate (resultChan (arrival env) trs)\<rparr>,
                          traces = trs\<rparr>)"

subsection \<open>The critical section, step by step\<close>

text \<open>
  Lines 201 to 206 as a transition system, interleaved with any number of readers that
  take the mutex, read the whole map and release the mutex. \<open>chan\<close> is what is left in
  the closed channel; \<open>reads\<close> records what the readers saw.
\<close>

datatype pc = Locking | Making | Ranging | Unlocking | Returned

record system =
  shared :: ContainerStats
  pc :: pc
  chan :: "Aggregate list"
  reads :: "Aggregate list"

definition start :: "ContainerStats \<Rightarrow> Aggregate list \<Rightarrow> system" where
  "start cs ms = \<lparr>shared = cs, pc = Locking, chan = ms, reads = []\<rparr>"

inductive step :: "system \<Rightarrow> system \<Rightarrow> bool" where
  Lock: "pc s = Locking \<Longrightarrow> StMu (shared s) = None \<Longrightarrow>
      step s (s\<lparr>shared := (shared s)\<lparr>StMu := Some Orchestrator\<rparr>, pc := Making\<rparr>)"
| Make: "pc s = Making \<Longrightarrow>
      step s (s\<lparr>shared := (shared s)\<lparr>Stats := Map.empty\<rparr>, pc := Ranging\<rparr>)"
| Copy: "pc s = Ranging \<Longrightarrow> chan s = m # ms \<Longrightarrow>
      step s (s\<lparr>shared := (shared s)\<lparr>Stats := Stats (shared s) ++ m\<rparr>, chan := ms\<rparr>)"
| Drained: "pc s = Ranging \<Longrightarrow> chan s = [] \<Longrightarrow> step s (s\<lparr>pc := Unlocking\<rparr>)"
| Unlock: "pc s = Unlocking \<Longrightarrow>
      step s (s\<lparr>shared := (shared s)\<lparr>StMu := None\<rparr>, pc := Returned\<rparr>)"
| ReaderLock: "StMu (shared s) = None \<Longrightarrow>
      step s (s\<lparr>shared := (shared s)\<lparr>StMu := Some (Reader i)\<rparr>\<rparr>)"
| ReaderRead: "StMu (shared s) = Some (Reader i) \<Longrightarrow>
      step s (s\<lparr>reads := reads s @ [Stats (shared s)]\<rparr>)"
| ReaderUnlock: "StMu (shared s) = Some (Reader i) \<Longrightarrow>
      step s (s\<lparr>shared := (shared s)\<lparr>StMu := None\<rparr>\<rparr>)"

subsection \<open>The specification's calculator\<close>

text \<open>
  The specification words the CPU percentage over the differences of the counters as
  numbers: \<open>cpuDelta = current.cpuTimeTotal - previous.cpuTimeTotal\<close>, likewise
  \<open>systemDelta\<close>, and a guard on \<open>systemDelta \<le> 0\<close> or \<open>onlineUnits \<le> 0\<close>.
\<close>

definition spec_cpuDelta :: "StatsResponse \<Rightarrow> StatsResponse \<Rightarrow> int" where
  "spec_cpuDelta current previous =
     uint (TotalUsage (CPUUsage (CPUStats current))) - uint (TotalUsage (CPUUsage (CPUStats previous)))"

definition spec_systemDelta :: "StatsResponse \<Rightarrow> StatsResponse \<Rightarrow> int" where
  "spec_systemDelta current previous =
     uint (SystemUsage (CPUStats current)) - uint (SystemUsage (CPUStats previous))"

definition spec_onlineUnits :: "StatsResponse \<Rightarrow> int" where
  "spec_onlineUnits current = uint (OnlineCPUs (CPUStats current))"

definition spec_cpuPercent :: "StatsResponse \<Rightarrow> StatsResponse \<Rightarrow> float64" where
  "spec_cpuPercent previous current =
     (if spec_systemDelta current previous \<le> 0 \<or> spec_onlineUnits current \<le> 0 then 0
      else fmul (fmul (fdiv (float64_of_int (spec_cpuDelta current previous))
                            (float64_of_int (spec_systemDelta current previous)))
                      (float64_of_int (spec_onlineUnits current))) 100)"


subsection \<open>Vocabulary of the statements\<close>

text \<open>
  A sampler fails when one of its two statistics calls fails or does not decode.
  \<open>key_sent\<close> is the key and \<open>value_sent\<close> the value of the one result a sampler
  sends (lines 54, 61, 71, 78 and 98 to 104);
  \<open>arrives_once\<close> says that the arrival order names every sampler exactly once.
\<close>

definition failed :: "stats_reply \<times> stats_reply \<Rightarrow> bool" where
  "failed r = (case r of (Decoded p, Decoded c) \<Rightarrow> False | _ \<Rightarrow> True)"

definition key_sent :: "Summary \<Rightarrow> stats_reply \<times> stats_reply \<Rightarrow> string" where
  "key_sent s r = (if failed r then hd (Names s) else TrimPrefix (hd (Names s)) ''/'')"

definition value_sent :: "stats_reply \<times> stats_reply \<Rightarrow> MetricResult" where
  "value_sent r =
     (case r of
        (Decoded p, Decoded c) \<Rightarrow> [''cpu'' \<mapsto> calculateCPUPercent c p, ''mem'' \<mapsto> memPercent c]
      | _ \<Rightarrow> error_result)"

definition keys_sent :: "environment \<Rightarrow> Summary list \<Rightarrow> string list" where
  "keys_sent env items = map (\<lambda>i. key_sent (items ! i) (replies env i)) [0..<length items]"

definition failures :: "environment \<Rightarrow> Summary list \<Rightarrow> nat" where
  "failures env items = length [i \<leftarrow> [0..<length items]. failed (replies env i)]"

definition arrives_once :: "nat list \<Rightarrow> nat \<Rightarrow> bool" where
  "arrives_once order n = (distinct order \<and> set order = {..<n})"

definition numeric :: "MetricResult \<Rightarrow> bool" where
  "numeric v = (dom v = {''cpu'', ''mem''})"

definition docker_name :: "string \<Rightarrow> bool" where
  \<comment> \<open>the names the Docker daemon reports: one \<open>/\<close>, then a name that does not begin with \<open>/\<close>\<close>
  "docker_name n = (case n of c # d # _ \<Rightarrow> c = CHR ''/'' \<and> d \<noteq> CHR ''/'' | _ \<Rightarrow> False)"

subsection \<open>Example inputs\<close>

definition snapshot ::
  "uint64 \<Rightarrow> uint64 \<Rightarrow> uint32 \<Rightarrow> uint64 \<Rightarrow> uint64 option \<Rightarrow> uint64 \<Rightarrow> StatsResponse" where
  "snapshot cpu sys online usage cache limit =
     \<lparr>CPUStats = \<lparr>CPUUsage = \<lparr>TotalUsage = cpu\<rparr>, SystemUsage = sys, OnlineCPUs = online\<rparr>,
      MemoryStats = \<lparr>Usage = usage,
                     Stats = (case cache of None \<Rightarrow> Map.empty | Some c \<Rightarrow> [''cache'' \<mapsto> c]),
                     Limit = limit\<rparr>\<rparr>"

definition web :: Summary where
  "web = \<lparr>ID = ''c1'', Names = [''/web'']\<rparr>"

definition db :: Summary where
  "db = \<lparr>ID = ''c2'', Names = [''/db'']\<rparr>"

definition nameless :: Summary where
  "nameless = \<lparr>ID = ''c3'', Names = []\<rparr>"

definition healthy :: "stats_reply \<times> stats_reply" where
  "healthy = (Decoded (snapshot 100 1000 2 80 (Some 10) 100),
              Decoded (snapshot 150 1100 2 80 (Some 10) 100))"

definition unreachable :: "stats_reply \<times> stats_reply" where
  "unreachable = (FetchError, FetchError)"

definition web_up :: environment where
  "web_up = \<lparr>client_ok = True, listing = Some [web], replies = (\<lambda>i. healthy), arrival = [0]\<rparr>"

definition web_down :: environment where
  "web_down = \<lparr>client_ok = True, listing = Some [web], replies = (\<lambda>i. unreachable), arrival = [0]\<rparr>"

definition web_down_db_up :: environment where
  "web_down_db_up =
     \<lparr>client_ok = True, listing = Some [web, db],
      replies = (\<lambda>i. if i = 0 then unreachable else healthy), arrival = [1, 0]\<rparr>"

definition plain :: Summary where
  "plain = \<lparr>ID = ''c4'', Names = [''a'']\<rparr>"

definition slashed :: Summary where
  "slashed = \<lparr>ID = ''c5'', Names = [''/a'']\<rparr>"

definition plain_and_slashed :: environment where
  "plain_and_slashed =
     \<lparr>client_ok = True, listing = Some [plain, slashed], replies = (\<lambda>i. healthy), arrival = [0, 1]\<rparr>"

definition nameless_down :: environment where
  "nameless_down =
     \<lparr>client_ok = True, listing = Some [nameless], replies = (\<lambda>i. unreachable), arrival = [0]\<rparr>"

definition no_listing :: environment where
  "no_listing = \<lparr>client_ok = True, listing = None, replies = (\<lambda>i. healthy), arrival = []\<rparr>"

section \<open>Properties\<close>

subsection \<open>Rounding\<close>

lemma bit_length_bounds:
  "0 < n \<Longrightarrow> 2 ^ (bit_length n - 1) \<le> n \<and> n < 2 ^ bit_length n"
proof (induction n rule: bit_length.induct)
  case (1 n)
  have eq: "bit_length n = Suc (bit_length (n div 2))"
    using 1 by (simp add: bit_length.simps)
  show ?case
  proof (cases "n div 2 \<le> 0")
    case True
    with 1 have "n = 1" by auto
    then show ?thesis by (simp add: bit_length.simps)
  next
    case False
    with 1 have IH: "2 ^ (bit_length (n div 2) - 1) \<le> n div 2" "n div 2 < 2 ^ bit_length (n div 2)"
      by auto
    have pos: "0 < bit_length (n div 2)"
      using False by (simp add: bit_length.simps)
    have "(2::int) ^ (bit_length n - 1) = 2 * 2 ^ (bit_length (n div 2) - 1)"
      using pos eq by (cases "bit_length (n div 2)") auto
    also have "\<dots> \<le> 2 * (n div 2)" using IH by simp
    also have "\<dots> \<le> n" by simp
    finally have a: "2 ^ (bit_length n - 1) \<le> n" .
    have "n < 2 * (n div 2) + 2" by presburger
    also have "\<dots> \<le> 2 * 2 ^ bit_length (n div 2)" using IH by simp
    finally have b: "n < 2 ^ bit_length n" using eq by simp
    from a b show ?thesis by simp
  qed
qed

lemma bit_length_pos: "0 < n \<Longrightarrow> 0 < bit_length n"
  by (simp add: bit_length.simps)

lemma floor_power2_bounds:
  fixes y :: rat
  assumes "1 \<le> y"
  shows "2 ^ (bit_length \<lfloor>y\<rfloor> - 1) \<le> y \<and> y < 2 ^ bit_length \<lfloor>y\<rfloor>"
proof -
  have n: "0 < \<lfloor>y\<rfloor>" using assms by simp
  from bit_length_bounds [OF n]
  have a: "2 ^ (bit_length \<lfloor>y\<rfloor> - 1) \<le> \<lfloor>y\<rfloor>" and b: "\<lfloor>y\<rfloor> < 2 ^ bit_length \<lfloor>y\<rfloor>" by auto
  have "(2::rat) ^ (bit_length \<lfloor>y\<rfloor> - 1) = of_int (2 ^ (bit_length \<lfloor>y\<rfloor> - 1))" by simp
  also have "\<dots> \<le> of_int \<lfloor>y\<rfloor>" using a by (simp only: of_int_le_iff)
  also have "\<dots> \<le> y" by simp
  finally have A: "2 ^ (bit_length \<lfloor>y\<rfloor> - 1) \<le> y" .
  have "\<lfloor>y\<rfloor> + 1 \<le> 2 ^ bit_length \<lfloor>y\<rfloor>" using b by simp
  then have "of_int (\<lfloor>y\<rfloor> + 1) \<le> (of_int (2 ^ bit_length \<lfloor>y\<rfloor>) :: rat)" by (simp only: of_int_le_iff)
  moreover have "y < of_int (\<lfloor>y\<rfloor> + 1)" by linarith
  ultimately have B: "y < 2 ^ bit_length \<lfloor>y\<rfloor>" by simp
  from A B show ?thesis ..
qed

lemma exponent_of_bounds:
  assumes "0 < x"
  shows "2 powi exponent_of x \<le> x \<and> x < 2 powi (exponent_of x + 1)"
proof (cases "1 \<le> x")
  case True
  define b where "b = bit_length \<lfloor>x\<rfloor>"
  have bpos: "0 < b" unfolding b_def using True by (intro bit_length_pos) simp
  have e: "exponent_of x = int b - 1" using True by (simp add: exponent_of_def b_def)
  have e1: "exponent_of x = int (b - 1)" using e bpos by simp
  have e2: "exponent_of x + 1 = int b" using e by simp
  from floor_power2_bounds [OF True] show ?thesis
    unfolding e2 unfolding e1 by (simp add: b_def)
next
  case False
  define y where "y = 1 / x"
  have y1: "1 \<le> y" using False assms by (simp add: y_def)
  have xy: "x = 1 / y" by (simp add: y_def)
  define b where "b = bit_length \<lfloor>y\<rfloor>"
  define k where "k = b - 1"
  have bpos: "0 < b" unfolding b_def using y1 by (intro bit_length_pos) simp
  have bk: "b = Suc k" using bpos by (simp add: k_def)
  from floor_power2_bounds [OF y1] have lo: "2 ^ k \<le> y" and hi: "y < 2 ^ Suc k"
    by (simp_all add: b_def [symmetric] k_def [symmetric] bk)
  have ypos: "0 < y" using y1 by simp
  have xle: "x \<le> 1 / 2 ^ k"
    unfolding xy using lo ypos by (simp add: field_simps)
  have xgt: "1 / 2 ^ Suc k < x"
    unfolding xy using hi ypos by (simp add: field_simps)
  have p1: "(2::rat) powi (- int k) = 1 / 2 ^ k"
    by (simp add: power_int_minus field_simps)
  have p2: "(2::rat) powi (- int k - 1) = 1 / 2 ^ Suc k"
  proof -
    have "- int k - 1 = - int (Suc k)" by simp
    then show ?thesis by (simp only: power_int_minus power_int_of_nat) (simp add: field_simps)
  qed
  have kk: "int (bit_length \<lfloor>1 / x\<rfloor>) - 1 = int k"
    using bk by (simp add: b_def y_def)
  have e: "exponent_of x = (if x = 2 powi (- int k) then - int k else - int k - 1)"
    using False by (simp add: exponent_of_def kk Let_def)
  show ?thesis
  proof (cases "x = 2 powi (- int k)")
    case True
    then have ex: "exponent_of x = - int k" using e by simp
    have "(2::rat) powi (- int k + 1) = 2 powi (- int k) * 2 powi 1"
      by (rule power_int_add) simp
    then have "2 powi (- int k + 1) = 2 * x" using True by simp
    moreover have "x < 2 * x" using assms by simp
    ultimately show ?thesis using True ex by simp
  next
    case F: False
    then have ex: "exponent_of x = - int k - 1" using e by simp
    have "x < 1 / 2 ^ k" using xle F p1 by simp
    then show ?thesis using xgt by (simp add: ex p2 p1)
  qed
qed


lemma round_half_even_bounds:
  "of_int (round_half_even m) \<le> m + 1 / 2 \<and> m - 1 / 2 \<le> of_int (round_half_even m)"
proof -
  define f where "f = \<lfloor>m\<rfloor>"
  have f: "of_int f \<le> m" "m < of_int f + 1" unfolding f_def by linarith+
  have "round_half_even m = f \<and> m - of_int f \<le> 1 / 2
      \<or> round_half_even m = f + 1 \<and> 1 / 2 \<le> m - of_int f"
    by (auto simp: round_half_even_def Let_def f_def [symmetric])
  then show ?thesis
  proof
    assume "round_half_even m = f \<and> m - of_int f \<le> 1 / 2"
    with f show ?thesis by simp
  next
    assume "round_half_even m = f + 1 \<and> 1 / 2 \<le> m - of_int f"
    with f show ?thesis by simp
  qed
qed

lemma round_float64_zero: "round_float64 0 = 0"
  by (simp add: round_float64_def)

lemma round_float64_minus: "round_float64 (- x) = - round_float64 x"
  by (simp add: round_float64_def Let_def)

lemma round_float64_pos_error:
  assumes "0 < x"
  shows "x - x / 2 ^ 53 \<le> round_float64 x \<and> round_float64 x \<le> x + x / 2 ^ 53"
proof -
  define e where "e = exponent_of x"
  define u :: rat where "u = 2 powi (e - 52)"
  have upos: "0 < u" by (simp add: u_def)
  have "(2::rat) powi e = 2 powi (e - 52) * 2 powi 52"
    using power_int_add [of "2::rat" "e - 52" 52] by simp
  then have ue: "2 powi e = u * 2 ^ 52" by (simp add: u_def)
  have "2 powi e \<le> x" using exponent_of_bounds [OF assms] by (simp add: e_def)
  then have ux: "u * 2 ^ 52 \<le> x" using ue by simp
  then have u2: "u / 2 \<le> x / 2 ^ 53" by simp
  define r where "r = round_half_even (x / u)"
  have rf: "round_float64 x = of_int r * u"
    using assms by (simp add: round_float64_def Let_def r_def u_def e_def)
  from round_half_even_bounds [of "x / u"]
  have "of_int r \<le> x / u + 1 / 2" "x / u - 1 / 2 \<le> of_int r" by (simp_all add: r_def)
  then have "of_int r * u \<le> (x / u + 1 / 2) * u" "(x / u - 1 / 2) * u \<le> of_int r * u"
    using upos by (simp_all only: mult_le_cancel_right_pos)
  moreover have "(x / u + 1 / 2) * u = x + u / 2" "(x / u - 1 / 2) * u = x - u / 2"
    using upos by (simp_all add: distrib_right left_diff_distrib)
  ultimately have "of_int r * u \<le> x + u / 2" "x - u / 2 \<le> of_int r * u"
    by simp_all
  with u2 rf show ?thesis by linarith
qed

lemma round_float64_pos: "0 < x \<Longrightarrow> 0 < round_float64 x"
proof -
  assume x: "0 < x"
  have "x / 2 ^ 53 < x" using x by (simp add: field_simps)
  with round_float64_pos_error [OF x] show ?thesis by linarith
qed

lemma round_float64_neg: "x < 0 \<Longrightarrow> round_float64 x < 0"
  using round_float64_pos [of "- x"] by (simp add: round_float64_minus)

lemma round_float64_nonneg: "0 \<le> x \<Longrightarrow> 0 \<le> round_float64 x"
  using round_float64_pos [of x] by (cases "x = 0") (simp_all add: round_float64_zero less_le)

lemma round_float64_eq_0_iff: "round_float64 x = 0 \<longleftrightarrow> x = 0"
proof (cases x "0::rat" rule: linorder_cases)
  case less
  then show ?thesis using round_float64_neg [of x] by simp
next
  case equal
  then show ?thesis by (simp add: round_float64_zero)
next
  case greater
  then show ?thesis using round_float64_pos [of x] by simp
qed

lemma round_float64_le_twice:
  assumes "0 \<le> x" "x \<le> b"
  shows "round_float64 x \<le> 2 * b"
proof (cases "x = 0")
  case True
  then show ?thesis using assms by (simp add: round_float64_zero)
next
  case False
  then have x: "0 < x" using assms by simp
  have "x / 2 ^ 53 \<le> x" using x by (simp add: field_simps)
  with round_float64_pos_error [OF x] assms show ?thesis by linarith
qed

lemma round_float64_ge_half:
  assumes "0 < b" "b \<le> x"
  shows "b / 2 \<le> round_float64 x"
proof -
  have x: "0 < x" using assms by simp
  have "x / 2 ^ 53 \<le> x / 2" using x by (simp add: field_simps)
  with round_float64_pos_error [OF x] assms show ?thesis by linarith
qed

lemma round_float64_abs_le_twice: "\<bar>round_float64 x\<bar> \<le> 2 * \<bar>x\<bar>"
proof (cases "0 \<le> x")
  case True
  then have "round_float64 x \<le> 2 * x" by (intro round_float64_le_twice) simp_all
  moreover have "0 \<le> round_float64 x" using True by (rule round_float64_nonneg)
  ultimately show ?thesis using True by simp
next
  case False
  then have "round_float64 (- x) \<le> 2 * (- x)" by (intro round_float64_le_twice) simp_all
  moreover have "0 \<le> round_float64 (- x)" using False by (intro round_float64_nonneg) simp
  ultimately show ?thesis using False by (simp add: round_float64_minus)
qed

lemma round_half_even_of_int: "round_half_even (of_int n) = n"
  by (simp add: round_half_even_def)

lemma round_half_even_mono:
  assumes "m1 \<le> m2"
  shows "round_half_even m1 \<le> round_half_even m2"
proof (cases "\<lfloor>m1\<rfloor> = \<lfloor>m2\<rfloor>")
  case True
  have "m1 - of_int \<lfloor>m2\<rfloor> \<le> m2 - of_int \<lfloor>m2\<rfloor>" using assms by simp
  then show ?thesis
    by (auto simp: round_half_even_def Let_def True)
next
  case False
  have "\<lfloor>m1\<rfloor> \<le> \<lfloor>m2\<rfloor>" using assms by (rule floor_mono)
  with False have lt: "\<lfloor>m1\<rfloor> + 1 \<le> \<lfloor>m2\<rfloor>" by simp
  have a: "round_half_even m1 \<le> \<lfloor>m1\<rfloor> + 1"
    by (simp add: round_half_even_def Let_def)
  have b: "\<lfloor>m2\<rfloor> \<le> round_half_even m2"
    by (simp add: round_half_even_def Let_def)
  from a lt b show ?thesis by linarith
qed

lemma exponent_of_unique:
  assumes "0 < x" "2 powi k \<le> x" "x < 2 powi (k + 1)"
  shows "exponent_of x = k"
proof (rule ccontr)
  assume ne: "exponent_of x \<noteq> k"
  define e where "e = exponent_of x"
  have b: "2 powi e \<le> x" "x < 2 powi (e + 1)"
    using exponent_of_bounds [OF assms(1)] by (simp_all add: e_def)
  show False
  proof (cases "e < k")
    case True
    then have "(2::rat) powi (e + 1) \<le> 2 powi k" by (intro power_int_increasing) simp_all
    with b assms show False by linarith
  next
    case False
    with ne have "k + 1 \<le> e" by (simp add: e_def)
    then have "(2::rat) powi (k + 1) \<le> 2 powi e" by (intro power_int_increasing) simp_all
    with b assms show False by linarith
  qed
qed

lemma exponent_of_mono:
  assumes "0 < x" "x \<le> y"
  shows "exponent_of x \<le> exponent_of y"
proof (rule ccontr)
  assume "\<not> exponent_of x \<le> exponent_of y"
  then have "exponent_of y + 1 \<le> exponent_of x" by simp
  then have "(2::rat) powi (exponent_of y + 1) \<le> 2 powi exponent_of x"
    by (intro power_int_increasing) simp_all
  moreover have "2 powi exponent_of x \<le> x" using exponent_of_bounds [OF assms(1)] by simp
  moreover have "y < 2 powi (exponent_of y + 1)"
    using exponent_of_bounds [of y] assms by simp
  ultimately show False using assms by linarith
qed

lemma ulp_times: "(2::rat) powi (e - 52) * 2 ^ 52 = 2 powi e"
  "(2::rat) powi (e - 52) * 2 ^ 53 = 2 powi (e + 1)"
proof -
  show "(2::rat) powi (e - 52) * 2 ^ 52 = 2 powi e"
    using power_int_add [of "2::rat" "e - 52" 52] by simp
  show "(2::rat) powi (e - 52) * 2 ^ 53 = 2 powi (e + 1)"
    using power_int_add [of "2::rat" "e - 52" 53] by (simp add: add.commute)
qed

lemma round_float64_pos_eq:
  "0 < x \<Longrightarrow> round_float64 x =
     of_int (round_half_even (x / 2 powi (exponent_of x - 52))) * 2 powi (exponent_of x - 52)"
  by (simp add: round_float64_def Let_def)

lemma round_float64_binade:
  assumes "0 < x"
  shows "2 powi exponent_of x \<le> round_float64 x \<and> round_float64 x \<le> 2 powi (exponent_of x + 1)"
proof -
  define e where "e = exponent_of x"
  define u :: rat where "u = 2 powi (e - 52)"
  have upos: "0 < u" by (simp add: u_def)
  have b: "2 powi e \<le> x" "x < 2 powi (e + 1)"
    using exponent_of_bounds [OF assms] by (simp_all add: e_def)
  have "u * 2 ^ 52 \<le> x" "x \<le> u * 2 ^ 53" using b ulp_times [of e] by (simp_all add: u_def)
  then have "of_int (2 ^ 52) \<le> x / u" "x / u \<le> of_int (2 ^ 53)"
    using upos by (simp_all add: field_simps)
  then have "round_half_even (of_int (2 ^ 52)) \<le> round_half_even (x / u)"
    "round_half_even (x / u) \<le> round_half_even (of_int (2 ^ 53))"
    using round_half_even_mono [of "of_int (2 ^ 52)" "x / u"]
      round_half_even_mono [of "x / u" "of_int (2 ^ 53)"] by blast+
  then have "2 ^ 52 \<le> round_half_even (x / u)" "round_half_even (x / u) \<le> 2 ^ 53"
    by (simp_all only: round_half_even_of_int)
  then have "(of_int (2 ^ 52) :: rat) \<le> of_int (round_half_even (x / u))"
    "(of_int (round_half_even (x / u)) :: rat) \<le> of_int (2 ^ 53)"
    by (simp_all only: of_int_le_iff)
  then have lo: "2 ^ 52 * u \<le> of_int (round_half_even (x / u)) * u"
    and hi: "of_int (round_half_even (x / u)) * u \<le> 2 ^ 53 * u"
    using upos by simp_all
  have p: "2 powi e = 2 ^ 52 * u" "2 powi (e + 1) = 2 ^ 53 * u"
    using ulp_times [of e] by (simp_all add: u_def mult.commute)
  have rf: "round_float64 x = of_int (round_half_even (x / u)) * u"
    using round_float64_pos_eq [OF assms] by (simp add: u_def e_def)
  show ?thesis
    unfolding e_def [symmetric] rf p using lo hi by blast
qed

lemma round_float64_mono_pos:
  assumes "0 < x" "x \<le> y"
  shows "round_float64 x \<le> round_float64 y"
proof (cases "exponent_of x = exponent_of y")
  case True
  define u :: rat where "u = 2 powi (exponent_of y - 52)"
  have upos: "0 < u" by (simp add: u_def)
  have y: "0 < y" using assms by simp
  have "x / u \<le> y / u" using assms upos by (simp add: divide_right_mono)
  then have "round_half_even (x / u) \<le> round_half_even (y / u)" by (rule round_half_even_mono)
  then have "(of_int (round_half_even (x / u)) :: rat) \<le> of_int (round_half_even (y / u))"
    by (simp only: of_int_le_iff)
  then have "of_int (round_half_even (x / u)) * u \<le> of_int (round_half_even (y / u)) * u"
    using upos by simp
  then show ?thesis
    using round_float64_pos_eq [OF assms(1)] round_float64_pos_eq [OF y]
    by (simp add: True u_def)
next
  case False
  with exponent_of_mono [OF assms] have "exponent_of x + 1 \<le> exponent_of y" by simp
  then have "(2::rat) powi (exponent_of x + 1) \<le> 2 powi exponent_of y"
    by (intro power_int_increasing) simp_all
  moreover have "round_float64 x \<le> 2 powi (exponent_of x + 1)"
    using round_float64_binade [OF assms(1)] by simp
  moreover have "2 powi exponent_of y \<le> round_float64 y"
    using round_float64_binade [of y] assms by simp
  ultimately show ?thesis by linarith
qed

lemma round_float64_mono:
  assumes "x \<le> y"
  shows "round_float64 x \<le> round_float64 y"
proof (cases "0 < x")
  case True
  then show ?thesis using assms by (rule round_float64_mono_pos)
next
  case False
  then have x: "x \<le> 0" by simp
  show ?thesis
  proof (cases "0 \<le> y")
    case True
    have "round_float64 x \<le> 0"
      using round_float64_nonneg [of "- x"] x by (simp add: round_float64_minus)
    moreover have "0 \<le> round_float64 y" using True by (rule round_float64_nonneg)
    ultimately show ?thesis by simp
  next
    case False
    then have "0 < - y" "- y \<le> - x" using assms by simp_all
    then have "round_float64 (- y) \<le> round_float64 (- x)" by (rule round_float64_mono_pos)
    then show ?thesis by (simp add: round_float64_minus)
  qed
qed

lemma round_float64_exact_pos:
  assumes "0 < i" "i < 2 ^ 53"
  shows "round_float64 (of_int i) = of_int i"
proof -
  define x :: rat where "x = of_int i"
  have "1 \<le> i" using assms by simp
  then have x1: "1 \<le> x" unfolding x_def by simp
  have "(of_int i :: rat) < of_int (2 ^ 53)" using assms(2) by (simp only: of_int_less_iff)
  then have x2: "x < 2 ^ 53" unfolding x_def by simp
  have x: "0 < x" "1 \<le> x" "x < 2 ^ 53"
    using x1 x2 by simp_all
  define e where "e = exponent_of x"
  have b: "2 powi e \<le> x" "x < 2 powi (e + 1)"
    using exponent_of_bounds [OF x(1)] by (simp_all add: e_def)
  have e0: "0 \<le> e"
  proof (rule ccontr)
    assume "\<not> 0 \<le> e"
    then have "e + 1 \<le> 0" by simp
    then have "(2::rat) powi (e + 1) \<le> 2 powi 0" by (intro power_int_increasing) simp_all
    with b x show False by simp
  qed
  have e52: "e \<le> 52"
  proof (rule ccontr)
    assume "\<not> e \<le> 52"
    then have "53 \<le> e" by simp
    then have "(2::rat) powi 53 \<le> 2 powi e" by (intro power_int_increasing) simp_all
    with b x show False by simp
  qed
  define k where "k = nat (52 - e)"
  have ek: "e - 52 = - int k" using e52 by (simp add: k_def)
  have u: "(2::rat) powi (e - 52) = 1 / 2 ^ k"
    unfolding ek by (simp add: power_int_minus field_simps)
  have "x / 2 powi (e - 52) = of_int (i * 2 ^ k)" by (simp add: u x_def)
  then have "round_half_even (x / 2 powi (e - 52)) = i * 2 ^ k"
    by (simp only: round_half_even_of_int)
  then have "round_float64 x = of_int (i * 2 ^ k) * (1 / 2 ^ k)"
    using round_float64_pos_eq [OF x(1)] by (simp add: e_def [symmetric] u)
  then show ?thesis by (simp add: x_def)
qed

lemma round_float64_exact:
  assumes "\<bar>i\<bar> < 2 ^ 53"
  shows "round_float64 (of_int i) = of_int i"
proof (cases i "0::int" rule: linorder_cases)
  case less
  then have "round_float64 (of_int (- i)) = of_int (- i)"
    using assms by (intro round_float64_exact_pos) simp_all
  then show ?thesis by (simp add: round_float64_minus)
next
  case equal
  then show ?thesis by (simp add: round_float64_zero)
next
  case greater
  then show ?thesis using assms by (intro round_float64_exact_pos) simp_all
qed

subsection \<open>Conversions and the two percentages\<close>

lemma float64_of_uint_nonneg: "0 \<le> float64_of_uint w"
proof -
  have "(0::rat) \<le> of_int (uint w)" by (simp only: of_int_0_le_iff uint_ge_0)
  then show ?thesis unfolding float64_of_uint_def by (rule round_float64_nonneg)
qed

lemma float64_of_uint_eq_0_iff: "float64_of_uint w = 0 \<longleftrightarrow> w = 0"
proof -
  have "(of_int (uint w) = (0::rat)) = (uint w = 0)" by (simp only: of_int_eq_0_iff)
  then show ?thesis
    unfolding float64_of_uint_def round_float64_eq_0_iff by (simp only: uint_0_iff)
qed

lemma float64_of_uint_le_0_iff: "float64_of_uint w \<le> 0 \<longleftrightarrow> w = 0"
  using float64_of_uint_nonneg [of w] float64_of_uint_eq_0_iff [of w] by auto

lemma float64_of_uint_pos_iff: "0 < float64_of_uint w \<longleftrightarrow> w \<noteq> 0"
  using float64_of_uint_le_0_iff [of w] by auto

lemma calculateCPUPercent_guard:
  "SystemUsage (CPUStats current) = SystemUsage (CPUStats previous) \<or> OnlineCPUs (CPUStats current) = 0
   \<Longrightarrow> calculateCPUPercent current previous = 0"
  by (auto simp: calculateCPUPercent_def Let_def float64_of_uint_le_0_iff)

lemma calculateCPUPercent_unguarded:
  "SystemUsage (CPUStats current) \<noteq> SystemUsage (CPUStats previous) \<Longrightarrow> OnlineCPUs (CPUStats current) \<noteq> 0
   \<Longrightarrow> calculateCPUPercent current previous =
       fmul (fmul (fdiv (float64_of_uint (TotalUsage (CPUUsage (CPUStats current)) - TotalUsage (CPUUsage (CPUStats previous))))
                        (float64_of_uint (SystemUsage (CPUStats current) - SystemUsage (CPUStats previous))))
                  (float64_of_uint (OnlineCPUs (CPUStats current)))) 100"
  by (auto simp: calculateCPUPercent_def Let_def float64_of_uint_le_0_iff)


lemma float64_of_uint_le: "float64_of_uint (w::'a::len word) \<le> 2 * 2 ^ LENGTH('a)"
proof -
  have "uint w \<le> 2 ^ LENGTH('a)" using uint_lt2p [of w] by (rule less_imp_le)
  then have "(of_int (uint w) :: rat) \<le> of_int (2 ^ LENGTH('a))" by (simp only: of_int_le_iff)
  then have a: "(of_int (uint w) :: rat) \<le> 2 ^ LENGTH('a)" by simp
  have b: "(0::rat) \<le> of_int (uint w)" by (simp only: of_int_0_le_iff uint_ge_0)
  show ?thesis unfolding float64_of_uint_def by (rule round_float64_le_twice [OF b a])
qed

lemma float64_of_uint_ge_half: "w \<noteq> 0 \<Longrightarrow> 1 / 2 \<le> float64_of_uint w"
proof -
  assume "w \<noteq> 0"
  then have "uint w \<noteq> 0" by (simp only: uint_0_iff not_False_eq_True)
  then have "1 \<le> uint w" using uint_ge_0 [of w] by linarith
  then have "(of_int 1 :: rat) \<le> of_int (uint w)" by (simp only: of_int_le_iff)
  then have a: "(1::rat) \<le> of_int (uint w)" by simp
  show ?thesis
    unfolding float64_of_uint_def using round_float64_ge_half [OF _ a] by simp
qed

lemma fdiv_range:
  assumes "0 \<le> a" "a \<le> A" "0 < b" "b \<le> d"
  shows "0 \<le> fdiv a d \<and> fdiv a d \<le> 2 * (A / b)"
proof -
  have "0 \<le> a / d" using assms by simp
  moreover have "a / d \<le> A / b" using assms by (intro frac_le) simp_all
  ultimately show ?thesis
    unfolding fdiv_def using round_float64_nonneg round_float64_le_twice by blast
qed

lemma fmul_range:
  assumes "0 \<le> a" "a \<le> A" "0 \<le> b" "b \<le> B"
  shows "0 \<le> fmul a b \<and> fmul a b \<le> 2 * (A * B)"
proof -
  have "0 \<le> a * b" using assms by simp
  moreover have "a * b \<le> A * B" using assms by (intro mult_mono) simp_all
  ultimately show ?thesis
    unfolding fmul_def using round_float64_nonneg round_float64_le_twice by blast
qed

lemma calculateCPUPercent_range:
  "0 \<le> calculateCPUPercent current previous \<and> calculateCPUPercent current previous \<le> 2 ^ 110"
proof (cases "SystemUsage (CPUStats current) = SystemUsage (CPUStats previous)
    \<or> OnlineCPUs (CPUStats current) = 0")
  case True
  then show ?thesis by (simp add: calculateCPUPercent_guard)
next
  case False
  define cd where "cd = float64_of_uint
    (TotalUsage (CPUUsage (CPUStats current)) - TotalUsage (CPUUsage (CPUStats previous)))"
  define sd where "sd = float64_of_uint
    (SystemUsage (CPUStats current) - SystemUsage (CPUStats previous))"
  define oc where "oc = float64_of_uint (OnlineCPUs (CPUStats current))"
  have r: "calculateCPUPercent current previous = fmul (fmul (fdiv cd sd) oc) 100"
    using False by (simp add: calculateCPUPercent_unguarded cd_def sd_def oc_def)
  have cd: "0 \<le> cd" "cd \<le> 2 ^ 65"
    using float64_of_uint_nonneg [of "TotalUsage (CPUUsage (CPUStats current)) - TotalUsage (CPUUsage (CPUStats previous))"]
      float64_of_uint_le [of "TotalUsage (CPUUsage (CPUStats current)) - TotalUsage (CPUUsage (CPUStats previous))"]
    by (simp_all add: cd_def)
  have sd: "1 / 2 \<le> sd"
    unfolding sd_def using False by (intro float64_of_uint_ge_half) simp
  have oc: "0 \<le> oc" "oc \<le> 2 ^ 33"
    using float64_of_uint_nonneg [of "OnlineCPUs (CPUStats current)"]
      float64_of_uint_le [of "OnlineCPUs (CPUStats current)"]
    by (simp_all add: oc_def)
  have q: "0 \<le> fdiv cd sd" "fdiv cd sd \<le> 2 ^ 67"
    using fdiv_range [OF cd, of "1 / 2" sd] sd by simp_all
  have m: "0 \<le> fmul (fdiv cd sd) oc" "fmul (fdiv cd sd) oc \<le> 2 ^ 101"
    using fmul_range [OF q oc] by simp_all
  have "0 \<le> fmul (fmul (fdiv cd sd) oc) 100" "fmul (fmul (fdiv cd sd) oc) 100 \<le> 2 * (2 ^ 101 * 100)"
    using fmul_range [OF m, of 100 100] by simp_all
  then show ?thesis unfolding r by simp
qed

lemma below_float64_max: "(2::rat) ^ 110 \<le> float64_max"
  by (simp add: float64_max_def)

lemma uint_sub_of_le: "uint y \<le> uint x \<Longrightarrow> uint (x - y) = uint x - uint y"
  by (simp only: uint_sub_lem)

lemma float64_of_uint_sub:
  "uint y \<le> uint x \<Longrightarrow> float64_of_uint (x - y) = float64_of_int (uint x - uint y)"
  unfolding float64_of_uint_def float64_of_int_def by (simp only: uint_sub_of_le)

lemma float64_of_uint_int: "float64_of_uint w = float64_of_int (uint w)"
  unfolding float64_of_uint_def float64_of_int_def ..


lemma float64_of_uint_mono: "uint v \<le> uint w \<Longrightarrow> float64_of_uint v \<le> float64_of_uint w"
proof -
  assume "uint v \<le> uint w"
  then have "(of_int (uint v) :: rat) \<le> of_int (uint w)" by (simp only: of_int_le_iff)
  then show ?thesis unfolding float64_of_uint_def by (rule round_float64_mono)
qed

lemma float64_of_uint_exact:
  "uint w < 2 ^ 53 \<Longrightarrow> float64_of_uint w = of_int (uint w)"
proof -
  assume "uint w < 2 ^ 53"
  then have "\<bar>uint w\<bar> < 2 ^ 53" using uint_ge_0 [of w] by simp
  then show ?thesis unfolding float64_of_uint_def by (rule round_float64_exact)
qed

lemma percent_sign:
  assumes "0 < l"
  shows "(u \<le> 0 \<longrightarrow> fmul (fdiv u l) 100 \<le> 0) \<and> (u < 0 \<longrightarrow> fmul (fdiv u l) 100 < 0)"
proof (intro conjI impI)
  assume "u \<le> 0"
  then have "u / l \<le> 0" using assms by (simp add: divide_le_0_iff)
  then have "round_float64 (u / l) \<le> round_float64 0" by (rule round_float64_mono)
  then have "fdiv u l * 100 \<le> 0" by (simp add: fdiv_def round_float64_zero)
  then have "round_float64 (fdiv u l * 100) \<le> round_float64 0" by (rule round_float64_mono)
  then show "fmul (fdiv u l) 100 \<le> 0" by (simp add: fmul_def round_float64_zero)
next
  assume "u < 0"
  then have "u / l < 0" using assms by (simp add: divide_less_0_iff)
  then have "fdiv u l < 0" unfolding fdiv_def by (rule round_float64_neg)
  then have "fdiv u l * 100 < 0" by simp
  then show "fmul (fdiv u l) 100 < 0" unfolding fmul_def by (rule round_float64_neg)
qed

lemma memPercent_limited:
  "Limit (MemoryStats currentStats) \<noteq> 0 \<Longrightarrow>
   memPercent currentStats =
     fmul (fdiv (memUsage currentStats) (float64_of_uint (Limit (MemoryStats currentStats)))) 100"
  by (simp add: memPercent_def Let_def float64_of_uint_pos_iff)


lemma memUsage_range: "\<bar>memUsage currentStats\<bar> \<le> 2 ^ 67"
proof -
  have u: "0 \<le> float64_of_uint (Usage (MemoryStats currentStats))"
    "float64_of_uint (Usage (MemoryStats currentStats)) \<le> 2 ^ 65"
    using float64_of_uint_nonneg [of "Usage (MemoryStats currentStats)"]
      float64_of_uint_le [of "Usage (MemoryStats currentStats)"] by simp_all
  show ?thesis
  proof (cases "MemoryStats.Stats (MemoryStats currentStats) ''cache''")
    case None
    then show ?thesis using u by (simp add: memUsage_def)
  next
    case (Some cache)
    have c: "0 \<le> float64_of_uint cache" "float64_of_uint cache \<le> 2 ^ 65"
      using float64_of_uint_nonneg [of cache] float64_of_uint_le [of cache] by simp_all
    have "\<bar>float64_of_uint (Usage (MemoryStats currentStats)) - float64_of_uint cache\<bar> \<le> 2 ^ 65"
      using u c by linarith
    then have "2 * \<bar>float64_of_uint (Usage (MemoryStats currentStats)) - float64_of_uint cache\<bar> \<le> 2 ^ 66"
      by simp
    then have "\<bar>fsub (float64_of_uint (Usage (MemoryStats currentStats))) (float64_of_uint cache)\<bar> \<le> 2 ^ 66"
      unfolding fsub_def
      using round_float64_abs_le_twice
        [of "float64_of_uint (Usage (MemoryStats currentStats)) - float64_of_uint cache"]
      by linarith
    then show ?thesis by (simp add: memUsage_def Some)
  qed
qed

lemma memPercent_range: "\<bar>memPercent currentStats\<bar> \<le> 2 ^ 77"
proof (cases "Limit (MemoryStats currentStats) = 0")
  case True
  then show ?thesis by (simp add: memPercent_def float64_of_uint_pos_iff)
next
  case False
  define l where "l = float64_of_uint (Limit (MemoryStats currentStats))"
  define q where "q = memUsage currentStats / l"
  have l: "1 / 2 \<le> l" unfolding l_def using False by (rule float64_of_uint_ge_half)
  have m: "memPercent currentStats = fmul (fdiv (memUsage currentStats) l) 100"
    using memPercent_limited [OF False] by (simp add: l_def)
  have "\<bar>q\<bar> = \<bar>memUsage currentStats\<bar> / l" using l by (simp add: q_def)
  also have "\<dots> \<le> 2 ^ 67 / (1 / 2)"
    using memUsage_range [of currentStats] l by (intro frac_le) simp_all
  finally have q: "\<bar>q\<bar> \<le> 2 ^ 68" by simp
  have "\<bar>fdiv (memUsage currentStats) l\<bar> \<le> 2 * \<bar>q\<bar>"
    unfolding fdiv_def q_def by (rule round_float64_abs_le_twice)
  with q have d: "\<bar>fdiv (memUsage currentStats) l\<bar> \<le> 2 ^ 69" by simp
  have "\<bar>fmul (fdiv (memUsage currentStats) l) 100\<bar> \<le> 2 * \<bar>fdiv (memUsage currentStats) l * 100\<bar>"
    unfolding fmul_def by (rule round_float64_abs_le_twice)
  also have "\<dots> = 200 * \<bar>fdiv (memUsage currentStats) l\<bar>" by (simp add: abs_mult)
  also have "\<dots> \<le> 200 * 2 ^ 69" using d by simp
  also have "\<dots> \<le> (2::rat) ^ 77" by simp
  finally show ?thesis unfolding m .
qed

lemma calculateCPUPercent_of_deltas:
  assumes "0 \<le> spec_cpuDelta current previous"
    and "0 < spec_systemDelta current previous"
    and "0 < spec_onlineUnits current"
  shows "calculateCPUPercent current previous =
           fmul (fmul (fdiv (float64_of_int (spec_cpuDelta current previous))
                            (float64_of_int (spec_systemDelta current previous)))
                      (float64_of_int (spec_onlineUnits current))) 100"
proof -
  have ne: "SystemUsage (CPUStats current) \<noteq> SystemUsage (CPUStats previous)"
    using assms(2) by (auto simp: spec_systemDelta_def)
  have on: "OnlineCPUs (CPUStats current) \<noteq> 0"
    using assms(3) by (auto simp: spec_onlineUnits_def)
  have c: "float64_of_uint (TotalUsage (CPUUsage (CPUStats current)) - TotalUsage (CPUUsage (CPUStats previous)))
      = float64_of_int (spec_cpuDelta current previous)"
    unfolding spec_cpuDelta_def using assms(1)
    by (intro float64_of_uint_sub) (simp add: spec_cpuDelta_def)
  have s: "float64_of_uint (SystemUsage (CPUStats current) - SystemUsage (CPUStats previous))
      = float64_of_int (spec_systemDelta current previous)"
    unfolding spec_systemDelta_def using assms(2)
    by (intro float64_of_uint_sub) (simp add: spec_systemDelta_def)
  show ?thesis
    unfolding calculateCPUPercent_unguarded [OF ne on] c s
    by (simp only: float64_of_uint_int spec_onlineUnits_def)
qed

lemma calculateCPUPercent_refines_spec:
  assumes "0 \<le> spec_cpuDelta current previous" and "0 \<le> spec_systemDelta current previous"
  shows "calculateCPUPercent current previous = spec_cpuPercent previous current"
proof (cases "0 < spec_systemDelta current previous \<and> 0 < spec_onlineUnits current")
  case True
  then show ?thesis
    using calculateCPUPercent_of_deltas [OF assms(1)] by (simp add: spec_cpuPercent_def)
next
  case False
  then have "spec_systemDelta current previous = 0 \<or> spec_onlineUnits current = 0"
    using assms(2) uint_ge_0 [of "OnlineCPUs (CPUStats current)"]
    unfolding spec_onlineUnits_def by linarith
  then have "SystemUsage (CPUStats current) = SystemUsage (CPUStats previous)
      \<or> OnlineCPUs (CPUStats current) = 0"
    by (auto simp: spec_systemDelta_def spec_onlineUnits_def uint_0_iff intro: word_uint_eqI)
  then have "calculateCPUPercent current previous = 0" by (rule calculateCPUPercent_guard)
  moreover have "spec_cpuPercent previous current = 0"
    using False by (auto simp: spec_cpuPercent_def)
  ultimately show ?thesis by simp
qed

text \<open>The example of the specification: 100 percent CPU, 70 percent memory.\<close>

lemma memPercent_example: "memPercent (snapshot 150 1100 2 80 (Some 10) 100) = 70"
  by code_simp

lemma memPercent_negative_example: "memPercent (snapshot 150 1100 2 10 (Some 80) 100) = - 70"
  by code_simp

lemma calculateCPUPercent_example:
  "calculateCPUPercent (snapshot 150 1100 2 80 (Some 10) 100) (snapshot 100 1000 2 80 (Some 10) 100) = 100"
  by code_simp

subsection \<open>The CPU percentage\<close>

text \<open>
  C2. The claim: whatever the two readings are, also when a counter of the current
  reading is smaller than that of the previous one, \<open>calculateCPUPercent\<close> returns 0
  as soon as the system delta is not positive or no CPU is online.

  The code subtracts the unsigned counters before it converts the difference, so a system
  counter that went back by 500 gives the delta \<open>2 ^ 64 - 500\<close>, which is positive:
  the guard does not fire and the result is not 0. The specification's calculator
  returns 0 on the same readings.
\<close>

theorem calculateCPUPercent_system_reset:
  "spec_systemDelta (snapshot 150 500 2 80 (Some 10) 100) (snapshot 100 1000 2 80 (Some 10) 100) = - 500
   \<and> spec_cpuPercent (snapshot 100 1000 2 80 (Some 10) 100) (snapshot 150 500 2 80 (Some 10) 100) = 0
   \<and> calculateCPUPercent (snapshot 150 500 2 80 (Some 10) 100) (snapshot 100 1000 2 80 (Some 10) 100)
       = 625 / 2 ^ 60"
proof -
  have d: "spec_systemDelta (snapshot 150 500 2 80 (Some 10) 100) (snapshot 100 1000 2 80 (Some 10) 100) = - 500"
    by (simp add: spec_systemDelta_def snapshot_def)
  then have s: "spec_cpuPercent (snapshot 100 1000 2 80 (Some 10) 100) (snapshot 150 500 2 80 (Some 10) 100) = 0"
    by (simp add: spec_cpuPercent_def)
  have c: "calculateCPUPercent (snapshot 150 500 2 80 (Some 10) 100) (snapshot 100 1000 2 80 (Some 10) 100)
       = 625 / 2 ^ 60"
    by code_simp
  show ?thesis using d s c by simp
qed

text \<open>
  When neither counter went back, the code and the specification's calculator agree
  (\<open>calculateCPUPercent_refines_spec\<close>). With a positive system delta and a CPU online
  the result is then the formula over the differences of the counters, each operation
  rounded as float64 does; it is not negative and it is below the largest float64.
\<close>

lemma calculateCPUPercent_formula:
  assumes "0 \<le> spec_cpuDelta current previous"
    and "0 < spec_systemDelta current previous"
    and "0 < spec_onlineUnits current"
  shows "calculateCPUPercent current previous =
           fmul (fmul (fdiv (float64_of_int (spec_cpuDelta current previous))
                            (float64_of_int (spec_systemDelta current previous)))
                      (float64_of_int (spec_onlineUnits current))) 100
         \<and> 0 \<le> calculateCPUPercent current previous
         \<and> calculateCPUPercent current previous \<le> float64_max"
proof -
  have "calculateCPUPercent current previous \<le> float64_max"
    using calculateCPUPercent_range [of current previous] below_float64_max by linarith
  then show ?thesis
    using calculateCPUPercent_of_deltas [OF assms] calculateCPUPercent_range [of current previous]
    by blast
qed

lemma calculateCPUPercent_formula_example:
  "0 \<le> spec_cpuDelta (snapshot 150 1100 2 80 (Some 10) 100) (snapshot 100 1000 2 80 (Some 10) 100)
   \<and> 0 < spec_systemDelta (snapshot 150 1100 2 80 (Some 10) 100) (snapshot 100 1000 2 80 (Some 10) 100)
   \<and> 0 < spec_onlineUnits (snapshot 150 1100 2 80 (Some 10) 100)
   \<and> calculateCPUPercent (snapshot 150 1100 2 80 (Some 10) 100) (snapshot 100 1000 2 80 (Some 10) 100)
       = fmul (fmul (fdiv (float64_of_int 50) (float64_of_int 100)) (float64_of_int 2)) 100
   \<and> 0 \<le> calculateCPUPercent (snapshot 150 1100 2 80 (Some 10) 100) (snapshot 100 1000 2 80 (Some 10) 100)
   \<and> calculateCPUPercent (snapshot 150 1100 2 80 (Some 10) 100) (snapshot 100 1000 2 80 (Some 10) 100)
       \<le> float64_max"
proof -
  have d: "spec_cpuDelta (snapshot 150 1100 2 80 (Some 10) 100) (snapshot 100 1000 2 80 (Some 10) 100) = 50"
    "spec_systemDelta (snapshot 150 1100 2 80 (Some 10) 100) (snapshot 100 1000 2 80 (Some 10) 100) = 100"
    "spec_onlineUnits (snapshot 150 1100 2 80 (Some 10) 100) = 2"
    by (simp_all add: spec_cpuDelta_def spec_systemDelta_def spec_onlineUnits_def snapshot_def)
  have h: "0 \<le> spec_cpuDelta (snapshot 150 1100 2 80 (Some 10) 100) (snapshot 100 1000 2 80 (Some 10) 100)"
    "0 < spec_systemDelta (snapshot 150 1100 2 80 (Some 10) 100) (snapshot 100 1000 2 80 (Some 10) 100)"
    "0 < spec_onlineUnits (snapshot 150 1100 2 80 (Some 10) 100)"
    by (simp_all add: d)
  show ?thesis
    using h calculateCPUPercent_formula [OF h] by (simp add: d)
qed


text \<open>
  C4. The claim: for every pair of readings with a positive system delta and a positive
  number of online CPUs the result is finite and equal to
  \<open>(cpuDelta / systemDelta) * onlineUnits * 100\<close>, and not negative when
  \<open>cpuDelta \<ge> 0\<close>.

  The code subtracts the unsigned CPU counters before it converts the difference, as it
  does with the system counters. With a CPU counter that went back by 50 while the system
  counter advanced by 100 on one CPU, the claim's formula gives -50; the code's
  \<open>cpuDelta\<close> is \<open>2 ^ 64 - 50\<close> and it returns \<open>2 ^ 64\<close>.
\<close>

theorem calculateCPUPercent_cpu_reset:
  "0 < spec_systemDelta (snapshot 100 1100 1 80 (Some 10) 100) (snapshot 150 1000 1 80 (Some 10) 100)
   \<and> 0 < spec_onlineUnits (snapshot 100 1100 1 80 (Some 10) 100)
   \<and> fmul (fmul (fdiv
         (float64_of_int (spec_cpuDelta (snapshot 100 1100 1 80 (Some 10) 100) (snapshot 150 1000 1 80 (Some 10) 100)))
         (float64_of_int (spec_systemDelta (snapshot 100 1100 1 80 (Some 10) 100) (snapshot 150 1000 1 80 (Some 10) 100))))
         (float64_of_int (spec_onlineUnits (snapshot 100 1100 1 80 (Some 10) 100)))) 100 = - 50
   \<and> calculateCPUPercent (snapshot 100 1100 1 80 (Some 10) 100) (snapshot 150 1000 1 80 (Some 10) 100)
       = 2 ^ 64"
proof -
  have d: "spec_cpuDelta (snapshot 100 1100 1 80 (Some 10) 100) (snapshot 150 1000 1 80 (Some 10) 100) = - 50"
    "spec_systemDelta (snapshot 100 1100 1 80 (Some 10) 100) (snapshot 150 1000 1 80 (Some 10) 100) = 100"
    "spec_onlineUnits (snapshot 100 1100 1 80 (Some 10) 100) = 1"
    by (simp_all add: spec_cpuDelta_def spec_systemDelta_def spec_onlineUnits_def snapshot_def)
  have f: "fmul (fmul (fdiv (float64_of_int (- 50)) (float64_of_int 100)) (float64_of_int 1)) 100 = - 50"
    by code_simp
  have c: "calculateCPUPercent (snapshot 100 1100 1 80 (Some 10) 100) (snapshot 150 1000 1 80 (Some 10) 100)
       = 2 ^ 64"
    by code_simp
  show ?thesis using d f c by simp
qed


subsection \<open>The memory percentage\<close>

text \<open>
  C5. With a memory limit above 0 the memory percentage is
  \<open>((usage - cache) / limit) * 100\<close>, where the cache is subtracted when the statistics
  have a \<open>cache\<close> entry; a cache larger than the usage gives a result that is not clamped:
  it is at most 0, and negative when the cache is below \<open>2 ^ 53\<close> bytes, where the
  conversion to float64 is exact.
\<close>

theorem memPercent_formula:
  assumes "0 < uint (Limit (MemoryStats currentStats))"
  shows "memPercent currentStats =
           fmul (fdiv (case MemoryStats.Stats (MemoryStats currentStats) ''cache'' of
                         Some cache \<Rightarrow> fsub (float64_of_uint (Usage (MemoryStats currentStats)))
                                            (float64_of_uint cache)
                       | None \<Rightarrow> float64_of_uint (Usage (MemoryStats currentStats)))
                      (float64_of_uint (Limit (MemoryStats currentStats)))) 100
         \<and> (MemoryStats.Stats (MemoryStats currentStats) ''cache'' = Some cache
              \<and> uint (Usage (MemoryStats currentStats)) < uint cache
              \<longrightarrow> memPercent currentStats \<le> 0)
         \<and> (MemoryStats.Stats (MemoryStats currentStats) ''cache'' = Some cache
              \<and> uint (Usage (MemoryStats currentStats)) < uint cache \<and> uint cache < 2 ^ 53
              \<longrightarrow> memPercent currentStats < 0)"
proof -
  define l where "l = float64_of_uint (Limit (MemoryStats currentStats))"
  have ne: "Limit (MemoryStats currentStats) \<noteq> 0" using assms by auto
  then have l: "0 < l" by (simp add: l_def float64_of_uint_pos_iff)
  have m: "memPercent currentStats = fmul (fdiv (memUsage currentStats) l) 100"
    using memPercent_limited [OF ne] by (simp add: l_def)
  have a: "memPercent currentStats =
      fmul (fdiv (case MemoryStats.Stats (MemoryStats currentStats) ''cache'' of
                    Some cache \<Rightarrow> fsub (float64_of_uint (Usage (MemoryStats currentStats)))
                                       (float64_of_uint cache)
                  | None \<Rightarrow> float64_of_uint (Usage (MemoryStats currentStats))) l) 100"
    unfolding m by (simp add: memUsage_def Let_def)
  have b: "memPercent currentStats \<le> 0"
    if c: "MemoryStats.Stats (MemoryStats currentStats) ''cache'' = Some cache"
      and u: "uint (Usage (MemoryStats currentStats)) < uint cache"
  proof -
    have "float64_of_uint (Usage (MemoryStats currentStats)) \<le> float64_of_uint cache"
      using u by (intro float64_of_uint_mono) simp
    then have "round_float64 (float64_of_uint (Usage (MemoryStats currentStats)) - float64_of_uint cache)
        \<le> round_float64 0"
      by (intro round_float64_mono) simp
    then have "memUsage currentStats \<le> 0"
      by (simp add: memUsage_def c fsub_def round_float64_zero)
    then show ?thesis unfolding m using percent_sign [OF l] by blast
  qed
  have d: "memPercent currentStats < 0"
    if c: "MemoryStats.Stats (MemoryStats currentStats) ''cache'' = Some cache"
      and u: "uint (Usage (MemoryStats currentStats)) < uint cache"
      and s: "uint cache < 2 ^ 53"
  proof -
    have "float64_of_uint (Usage (MemoryStats currentStats)) = of_int (uint (Usage (MemoryStats currentStats)))"
      using u s by (intro float64_of_uint_exact) simp
    moreover have "float64_of_uint cache = of_int (uint cache)"
      using s by (rule float64_of_uint_exact)
    moreover have "(of_int (uint (Usage (MemoryStats currentStats))) :: rat) < of_int (uint cache)"
      using u by (simp only: of_int_less_iff)
    ultimately have "float64_of_uint (Usage (MemoryStats currentStats)) - float64_of_uint cache < 0"
      by simp
    then have "memUsage currentStats < 0"
      unfolding memUsage_def Let_def c option.case fsub_def by (rule round_float64_neg)
    then show ?thesis unfolding m using percent_sign [OF l] by blast
  qed
  from a b d show ?thesis unfolding l_def by blast
qed

theorem memPercent_formula_witness:
  "0 < uint (Limit (MemoryStats (snapshot 150 1100 2 10 (Some 80) 100)))
   \<and> MemoryStats.Stats (MemoryStats (snapshot 150 1100 2 10 (Some 80) 100)) ''cache'' = Some 80
   \<and> uint (Usage (MemoryStats (snapshot 150 1100 2 10 (Some 80) 100))) < uint (80 :: uint64)
   \<and> uint (80 :: uint64) < 2 ^ 53
   \<and> memPercent (snapshot 150 1100 2 10 (Some 80) 100) < 0"
proof -
  have h: "0 < uint (Limit (MemoryStats (snapshot 150 1100 2 10 (Some 80) 100)))"
    by (simp add: snapshot_def)
  have c: "MemoryStats.Stats (MemoryStats (snapshot 150 1100 2 10 (Some 80) 100)) ''cache'' = Some 80"
    "uint (Usage (MemoryStats (snapshot 150 1100 2 10 (Some 80) 100))) < uint (80 :: uint64)"
    "uint (80 :: uint64) < 2 ^ 53"
    by (simp_all add: snapshot_def)
  show ?thesis using h c memPercent_formula [OF h, of 80] by blast
qed


text \<open>
  C6. With a memory limit of 0 (an unsigned limit is never below 0) the memory percentage
  is 0, whatever the usage and the cache are.
\<close>

theorem memPercent_zero_limit:
  "uint (Limit (MemoryStats currentStats)) \<le> 0 \<Longrightarrow> memPercent currentStats = 0"
proof -
  assume "uint (Limit (MemoryStats currentStats)) \<le> 0"
  then have "Limit (MemoryStats currentStats) = 0" by (simp add: uint_0_iff)
  then have "\<not> 0 < float64_of_uint (Limit (MemoryStats currentStats))"
    by (simp add: float64_of_uint_pos_iff)
  then show ?thesis by (simp add: memPercent_def Let_def)
qed

theorem memPercent_zero_limit_witness:
  "uint (Limit (MemoryStats (snapshot 150 1100 2 80 (Some 10) 0))) \<le> 0
   \<and> memPercent (snapshot 150 1100 2 80 (Some 10) 0) = 0"
proof -
  have h: "uint (Limit (MemoryStats (snapshot 150 1100 2 80 (Some 10) 0))) \<le> 0"
    by (simp add: snapshot_def)
  show ?thesis using h memPercent_zero_limit [OF h] by simp
qed

subsection \<open>The sampler\<close>

lemma first_name_Cons: "Names s \<noteq> [] \<Longrightarrow> first_name s = Inr (hd (Names s))"
  by (cases "Names s") (simp_all add: first_name_def)

lemma first_name_Nil: "Names s = [] \<Longrightarrow> first_name s = Inl IndexOutOfRange"
  by (simp add: first_name_def)

text \<open>
  C10. \<open>collectStats\<close> reads \<open>Names[0]\<close> on every path, before each of the four
  sentinel sends and before the send of the percentages. For a summary with an empty
  \<open>Names\<close> list the sampler therefore ends in an index-out-of-range panic, whatever the
  two statistics calls give, and sends nothing.
\<close>

theorem collectStats_nameless:
  "Names s = [] \<Longrightarrow> collectStats cs s r1 r2 = Inl IndexOutOfRange"
  by (simp add: collectStats_def send_error_def send_stats_def first_name_Nil Let_def
      split: stats_reply.split)

theorem collectStats_nameless_witness:
  "Names nameless = []
   \<and> collectStats (Init 1) nameless FetchError FetchError = Inl IndexOutOfRange
   \<and> collectStats (Init 1) nameless (fst healthy) (snd healthy) = Inl IndexOutOfRange"
proof -
  have h: "Names nameless = []" by (simp add: nameless_def)
  show ?thesis
    using h collectStats_nameless [OF h, of "Init 1" FetchError FetchError]
      collectStats_nameless [OF h, of "Init 1" "fst healthy" "snd healthy"]
    by simp
qed

text \<open>
  C7. The claim: on every path the sampler sends exactly one result and never panics.
  This holds for a summary with at least one name: the sampler does not panic and its
  trace has exactly one send. When the first call fails or does not decode, the trace is
  the call and the send of the sentinel, with no sleep; when the second call fails or does
  not decode, it is call, sleep, call and the send of the sentinel; otherwise it is call,
  sleep, call and the send of the two percentages.
\<close>

theorem collectStats_one_result:
  assumes "Names s \<noteq> []"
  shows "\<exists>evs k. collectStats cs s r1 r2 = Inr evs \<and> length (sends evs) = 1
      \<and> (r1 = FetchError \<or> r1 = DecodeError \<longrightarrow>
            evs = [Fetch (ID s), Send [k \<mapsto> error_result]])
      \<and> (\<forall>p. r1 = Decoded p \<and> (r2 = FetchError \<or> r2 = DecodeError) \<longrightarrow>
            evs = [Fetch (ID s), Sleep (Interval cs), Fetch (ID s), Send [k \<mapsto> error_result]])
      \<and> (\<forall>p c. r1 = Decoded p \<and> r2 = Decoded c \<longrightarrow>
            evs = [Fetch (ID s), Sleep (Interval cs), Fetch (ID s),
                   Send [k \<mapsto> [''cpu'' \<mapsto> calculateCPUPercent c p, ''mem'' \<mapsto> memPercent c]]])"
  using assms
  by (cases r1; cases r2)
    (auto simp: collectStats_def send_error_def send_stats_def first_name_Cons Let_def)

theorem collectStats_one_result_witness:
  "Names web \<noteq> []
   \<and> (\<exists>evs k. collectStats (Init 1) web FetchError FetchError = Inr evs \<and> length (sends evs) = 1
        \<and> evs = [Fetch (ID web), Send [k \<mapsto> error_result]])"
proof -
  have h: "Names web \<noteq> []" by (simp add: web_def)
  from collectStats_one_result [OF h, of "Init 1" FetchError FetchError]
  show ?thesis using h by auto
qed

text \<open>
  Without a name the sampler panics instead of sending the sentinel, and the panic ends
  the cycle.
\<close>

theorem collectStats_panics_without_name:
  "collectStats (Init 1) nameless FetchError FetchError = Inl IndexOutOfRange
   \<and> GetContainerStats nameless_down (Init 1) = Inl IndexOutOfRange"
proof -
  have a: "collectStats (Init 1) nameless FetchError FetchError = Inl IndexOutOfRange"
    by (simp add: collectStats_def send_error_def first_name_def nameless_def)
  then have "samplers nameless_down (Init 1) [nameless] = [Inl IndexOutOfRange]"
    by (simp add: samplers_def nameless_down_def unreachable_def)
  then have "GetContainerStats nameless_down (Init 1) = Inl IndexOutOfRange"
    by (simp add: GetContainerStats_def nameless_down_def)
  with a show ?thesis by simp
qed

subsection \<open>The cycle\<close>

text \<open>
  C8. When the client cannot be created or the listing fails, the cycle returns with the
  store as it was, and no sampler has been started.
\<close>

theorem GetContainerStats_aborts:
  "\<not> client_ok env \<or> listing env = None \<Longrightarrow>
   GetContainerStats env cs = Inr \<lparr>store = cs, traces = []\<rparr>"
  by (auto simp: GetContainerStats_def)

theorem GetContainerStats_aborts_witness:
  "listing no_listing = None
   \<and> GetContainerStats no_listing (Init 1) = Inr \<lparr>store = Init 1, traces = []\<rparr>"
proof -
  have l: "listing no_listing = None" by (simp add: no_listing_def)
  then have h: "\<not> client_ok no_listing \<or> listing no_listing = None" by simp
  show ?thesis using l GetContainerStats_aborts [OF h, of "Init 1"] by simp
qed

text \<open>
  What one sampler sends, and what the channel holds when all samplers have finished.
\<close>

lemma collectStats_message:
  assumes "Names s \<noteq> []"
  shows "\<exists>evs. collectStats cs s (fst r) (snd r) = Inr evs
      \<and> sends evs = [[key_sent s r \<mapsto> value_sent r]]"
  using assms
  by (cases r; cases "fst r"; cases "snd r")
    (auto simp: collectStats_def send_error_def send_stats_def first_name_Cons Let_def
      failed_def key_sent_def value_sent_def)

lemma value_sent_failed: "failed r \<Longrightarrow> value_sent r = error_result"
  by (auto simp: failed_def value_sent_def split: prod.splits stats_reply.splits)

lemma value_sent_numeric: "\<not> failed r \<Longrightarrow> numeric (value_sent r)"
  by (auto simp: failed_def value_sent_def numeric_def split: prod.splits stats_reply.splits)

lemma error_result_not_numeric: "\<not> numeric error_result"
  by (auto simp: numeric_def error_result_def)

lemma value_sent_error_iff: "value_sent r = error_result \<longleftrightarrow> failed r"
  using value_sent_failed [of r] value_sent_numeric [of r] error_result_not_numeric by metis

lemma value_sent_numeric_iff: "numeric (value_sent r) \<longleftrightarrow> \<not> failed r"
  using value_sent_failed [of r] value_sent_numeric [of r] error_result_not_numeric by metis

lemma samplers_nth:
  assumes "\<forall>s\<in>set items. Names s \<noteq> []" "i < length items"
  shows "\<exists>evs. samplers env cs items ! i = Inr evs
      \<and> sends evs = [[key_sent (items ! i) (replies env i) \<mapsto> value_sent (replies env i)]]"
proof -
  have "Names (items ! i) \<noteq> []" using assms by simp
  from collectStats_message [OF this, of cs "replies env i"] show ?thesis
    using assms(2) by (simp add: samplers_def)
qed

lemma length_samplers: "length (samplers env cs items) = length items"
  by (simp add: samplers_def)

lemma samplers_no_panic:
  assumes "\<forall>s\<in>set items. Names s \<noteq> []"
  shows "\<not> list_ex isl (samplers env cs items)"
proof -
  have "\<not> isl r" if "r \<in> set (samplers env cs items)" for r
  proof -
    from that obtain i where "i < length items" "r = samplers env cs items ! i"
      by (auto simp: in_set_conv_nth length_samplers)
    with samplers_nth [OF assms, of i env cs] show ?thesis by auto
  qed
  then show ?thesis by (auto simp: list_ex_iff)
qed

lemma sends_projr_samplers:
  assumes "\<forall>s\<in>set items. Names s \<noteq> []" "i < length items"
  shows "sends (map projr (samplers env cs items) ! i)
     = [[key_sent (items ! i) (replies env i) \<mapsto> value_sent (replies env i)]]"
  using samplers_nth [OF assms, of env cs] assms(2) by (auto simp: length_samplers)

lemma resultChan_samplers:
  assumes "\<forall>s\<in>set items. Names s \<noteq> []" "arrives_once order (length items)"
  shows "resultChan order (map projr (samplers env cs items))
     = map (\<lambda>i. [key_sent (items ! i) (replies env i) \<mapsto> value_sent (replies env i)]) order"
proof -
  have in_range: "i < length items" if "i \<in> set order" for i
    using that assms(2) by (auto simp: arrives_once_def)
  then have f: "[i \<leftarrow> order. i < length (map projr (samplers env cs items))] = order"
    by (simp add: length_samplers)
  have "concat (map (\<lambda>i. sends (map projr (samplers env cs items) ! i)) order)
      = concat (map (\<lambda>i. [[key_sent (items ! i) (replies env i) \<mapsto> value_sent (replies env i)]]) order)"
    using in_range sends_projr_samplers [OF assms(1)]
    by (intro arg_cong [where f = concat] map_cong) simp_all
  also have "\<dots> = map (\<lambda>i. [key_sent (items ! i) (replies env i) \<mapsto> value_sent (replies env i)]) order"
    by (induction order) simp_all
  finally show ?thesis unfolding resultChan_def f .
qed

text \<open>
  Copying one-entry maps into a map, one after the other.
\<close>

lemma dom_foldl_singletons:
  "dom (foldl (++) m (map (\<lambda>i. [k i \<mapsto> v i]) xs)) = dom m \<union> k ` set xs"
  by (induction xs arbitrary: m) auto

lemma foldl_singletons_other:
  "x \<notin> k ` set xs \<Longrightarrow> foldl (++) m (map (\<lambda>i. [k i \<mapsto> v i]) xs) x = m x"
  by (induction xs arbitrary: m) auto

lemma foldl_singletons_lookup:
  "inj_on k (set xs) \<Longrightarrow> i \<in> set xs \<Longrightarrow>
   foldl (++) m (map (\<lambda>i. [k i \<mapsto> v i]) xs) (k i) = Some (v i)"
proof (induction xs arbitrary: m)
  case Nil
  then show ?case by simp
next
  case (Cons a xs)
  show ?case
  proof (cases "i \<in> set xs")
    case True
    moreover have "inj_on k (set xs)" using Cons.prems(1) by (simp add: inj_on_def)
    ultimately show ?thesis using Cons.IH by simp
  next
    case False
    with Cons.prems have ia: "i = a" by simp
    have "k a \<notin> k ` set xs"
    proof
      assume "k a \<in> k ` set xs"
      then obtain j where "j \<in> set xs" "k j = k a" by auto
      with Cons.prems(1) have "j = a" by (auto simp: inj_on_def)
      with \<open>j \<in> set xs\<close> False ia show False by simp
    qed
    then have "foldl (++) (m ++ [k a \<mapsto> v a]) (map (\<lambda>i. [k i \<mapsto> v i]) xs) (k a)
        = (m ++ [k a \<mapsto> v a]) (k a)"
      by (rule foldl_singletons_other)
    also have "\<dots> = Some (v a)" by simp
    finally show ?thesis unfolding ia by (simp only: list.map foldl_Cons)
  qed
qed

lemma failures_card: "failures env items = card {i. i < length items \<and> failed (replies env i)}"
proof -
  have "{i. failed (replies env i)} \<inter> set [0..<length items]
      = {i. i < length items \<and> failed (replies env i)}" by auto
  then show ?thesis
    unfolding failures_def using distinct_length_filter [of "[0..<length items]" "\<lambda>i. failed (replies env i)"]
    by simp
qed

lemma successes_card:
  "card {i. i < length items \<and> \<not> failed (replies env i)} = length items - failures env items"
proof -
  have "{i. \<not> failed (replies env i)} \<inter> set [0..<length items]
      = {i. i < length items \<and> \<not> failed (replies env i)}" by auto
  then have "card {i. i < length items \<and> \<not> failed (replies env i)}
      = length [i \<leftarrow> [0..<length items]. \<not> failed (replies env i)]"
    using distinct_length_filter [of "[0..<length items]" "\<lambda>i. \<not> failed (replies env i)"]
    by simp
  moreover have "length [i \<leftarrow> [0..<length items]. failed (replies env i)]
      + length [i \<leftarrow> [0..<length items]. \<not> failed (replies env i)] = length items"
    using sum_length_filter_compl [of "\<lambda>i. failed (replies env i)" "[0..<length items]"] by simp
  ultimately show ?thesis by (simp add: failures_def)
qed

text \<open>
  C1. The claim: a cycle over N containers with distinct names, K of which fail, installs
  an Aggregate with exactly N keys, K of them holding the sentinel and N - K holding
  \<open>cpu\<close> and \<open>mem\<close>, and the set of keys is the list of targets whatever succeeded
  or failed.

  What holds: when every listed container has a name and the keys that the samplers send
  are pairwise distinct, the cycle does not panic and installs an Aggregate whose keys
  are exactly the keys sent, one per container: N keys, of which as many hold the sentinel
  as samplers failed and the others hold \<open>cpu\<close> and \<open>mem\<close>. The key of a container
  is its first name, stripped of a leading \<open>/\<close> when its sampler succeeded.
\<close>

theorem GetContainerStats_aggregate:
  assumes "client_ok env" and "listing env = Some items"
    and "\<forall>s\<in>set items. Names s \<noteq> []"
    and "arrives_once (arrival env) (length items)"
    and "distinct (keys_sent env items)"
  shows "\<exists>c. GetContainerStats env cs = Inr c
      \<and> dom (Stats (store c)) = set (keys_sent env items)
      \<and> card (dom (Stats (store c))) = length items
      \<and> card {k. Stats (store c) k = Some error_result} = failures env items
      \<and> card {k. \<exists>v. Stats (store c) k = Some v \<and> numeric v} = length items - failures env items
      \<and> (\<forall>i<length items.
            Stats (store c) (key_sent (items ! i) (replies env i)) = Some (value_sent (replies env i)))"
proof -
  define n where "n = length items"
  define k where "k = (\<lambda>i. key_sent (items ! i) (replies env i))"
  define v where "v = (\<lambda>i. value_sent (replies env i))"
  define A where "A = aggregate (map (\<lambda>i. [k i \<mapsto> v i]) (arrival env))"
  have order: "set (arrival env) = {..<n}"
    using assms(4) by (simp add: arrives_once_def n_def)
  have inj: "inj_on k {..<n}"
    using assms(5) by (simp add: keys_sent_def distinct_map k_def n_def lessThan_atLeast0)
  have run: "GetContainerStats env cs =
      Inr \<lparr>store = cs\<lparr>Stats := A\<rparr>, traces = map projr (samplers env cs items)\<rparr>"
    using assms(1,2) samplers_no_panic [OF assms(3), of env cs]
      resultChan_samplers [OF assms(3,4), of env cs]
    by (simp add: GetContainerStats_def Let_def A_def k_def v_def)
  have domA: "dom A = k ` {..<n}"
    by (simp add: A_def aggregate_def dom_foldl_singletons order)
  have look: "A (k i) = Some (v i)" if "i < n" for i
    unfolding A_def aggregate_def using inj that
    by (intro foldl_singletons_lookup) (simp_all add: order)
  have keys: "dom A = set (keys_sent env items)"
    by (simp add: domA keys_sent_def k_def n_def lessThan_atLeast0)
  have cardA: "card (dom A) = n"
    unfolding domA using inj by (simp add: card_image)
  have err: "{x. A x = Some error_result} = k ` {i. i < n \<and> failed (replies env i)}"
  proof (intro set_eqI iffI)
    fix x assume "x \<in> {x. A x = Some error_result}"
    then have a: "A x = Some error_result" by simp
    then have "x \<in> dom A" by auto
    then obtain i where i: "i < n" "x = k i" unfolding domA by auto
    with a look [of i] have "v i = error_result" by simp
    then have "failed (replies env i)" by (simp add: v_def value_sent_error_iff)
    with i show "x \<in> k ` {i. i < n \<and> failed (replies env i)}" by auto
  next
    fix x assume "x \<in> k ` {i. i < n \<and> failed (replies env i)}"
    then obtain i where i: "i < n" "failed (replies env i)" "x = k i" by auto
    then have "v i = error_result" by (simp add: v_def value_sent_failed)
    with look [of i] i show "x \<in> {x. A x = Some error_result}" by simp
  qed
  have num: "{x. \<exists>w. A x = Some w \<and> numeric w} = k ` {i. i < n \<and> \<not> failed (replies env i)}"
  proof (intro set_eqI iffI)
    fix x assume "x \<in> {x. \<exists>w. A x = Some w \<and> numeric w}"
    then obtain w where a: "A x = Some w" "numeric w" by auto
    then have "x \<in> dom A" by auto
    then obtain i where i: "i < n" "x = k i" unfolding domA by auto
    with a look [of i] have "numeric (v i)" by simp
    then have "\<not> failed (replies env i)" by (simp add: v_def value_sent_numeric_iff)
    with i show "x \<in> k ` {i. i < n \<and> \<not> failed (replies env i)}" by auto
  next
    fix x assume "x \<in> k ` {i. i < n \<and> \<not> failed (replies env i)}"
    then obtain i where i: "i < n" "\<not> failed (replies env i)" "x = k i" by auto
    then have "numeric (v i)" by (simp add: v_def value_sent_numeric)
    with look [of i] i show "x \<in> {x. \<exists>w. A x = Some w \<and> numeric w}" by auto
  qed
  have sub: "inj_on k {i. i < n \<and> P i}" for P
    using inj by (rule inj_on_subset) auto
  have c1: "card {x. A x = Some error_result} = failures env items"
    unfolding err card_image [OF sub] by (simp add: failures_card n_def)
  have c2: "card {x. \<exists>w. A x = Some w \<and> numeric w} = length items - failures env items"
    unfolding num card_image [OF sub] by (simp add: successes_card n_def)
  have c3: "\<forall>i<length items. A (key_sent (items ! i) (replies env i)) = Some (value_sent (replies env i))"
    using look by (simp add: k_def v_def n_def)
  show ?thesis
    unfolding run using keys cardA c1 c2 c3 by (simp add: n_def)
qed

lemma collectStats_web_down:
  "collectStats cs web FetchError r2 = Inr [Fetch ''c1'', Send [''/web'' \<mapsto> error_result]]"
  by (simp add: collectStats_def send_error_def first_name_def web_def)

lemma collectStats_web_up:
  "collectStats cs web (Decoded p) (Decoded c) =
     Inr [Fetch ''c1'', Sleep (Interval cs), Fetch ''c1'',
          Send [''web'' \<mapsto> [''cpu'' \<mapsto> calculateCPUPercent c p, ''mem'' \<mapsto> memPercent c]]]"
  by (simp add: collectStats_def send_stats_def first_name_def web_def TrimPrefix_def Let_def)

lemma collectStats_healthy:
  "Names s = n # ns \<Longrightarrow>
   collectStats cs s (fst healthy) (snd healthy) =
     Inr [Fetch (ID s), Sleep (Interval cs), Fetch (ID s),
          Send [TrimPrefix n ''/'' \<mapsto> value_sent healthy]]"
  by (simp add: collectStats_def send_stats_def first_name_def healthy_def value_sent_def Let_def)

lemma aggregate_single: "aggregate [m] = m"
  by (simp add: aggregate_def)

lemma aggregate_same_key: "aggregate [[k \<mapsto> v], [k \<mapsto> w]] = [k \<mapsto> w]"
  by (simp add: aggregate_def)

theorem GetContainerStats_aggregate_witness:
  "client_ok web_down_db_up \<and> listing web_down_db_up = Some [web, db]
   \<and> Names web \<noteq> [] \<and> Names db \<noteq> []
   \<and> arrives_once (arrival web_down_db_up) (length [web, db])
   \<and> distinct (keys_sent web_down_db_up [web, db])
   \<and> failures web_down_db_up [web, db] = 1
   \<and> (\<exists>c. GetContainerStats web_down_db_up (Init 1) = Inr c
        \<and> dom (Stats (store c)) = {''/web'', ''db''}
        \<and> card (dom (Stats (store c))) = 2
        \<and> card {k. Stats (store c) k = Some error_result} = 1
        \<and> card {k. \<exists>v. Stats (store c) k = Some v \<and> numeric v} = 1)"
proof -
  have h1: "client_ok web_down_db_up" and h2: "listing web_down_db_up = Some [web, db]"
    by (simp_all add: web_down_db_up_def)
  have h3: "\<forall>s\<in>set [web, db]. Names s \<noteq> []" by (simp add: web_def db_def)
  have h4: "arrives_once (arrival web_down_db_up) (length [web, db])"
    by (auto simp: arrives_once_def web_down_db_up_def)
  have ks: "keys_sent web_down_db_up [web, db] = [''/web'', ''db'']"
    by (simp add: keys_sent_def key_sent_def failed_def web_down_db_up_def unreachable_def
        healthy_def web_def db_def TrimPrefix_def upt_rec)
  then have h5: "distinct (keys_sent web_down_db_up [web, db])" by simp
  have f: "failures web_down_db_up [web, db] = 1"
    by (simp add: failures_def failed_def web_down_db_up_def unreachable_def healthy_def upt_rec)
  from GetContainerStats_aggregate [OF h1 h2 h3 h4 h5, of "Init 1"]
  obtain c where c: "GetContainerStats web_down_db_up (Init 1) = Inr c"
    "dom (Stats (store c)) = set (keys_sent web_down_db_up [web, db])"
    "card (dom (Stats (store c))) = length [web, db]"
    "card {k. Stats (store c) k = Some error_result} = failures web_down_db_up [web, db]"
    "card {k. \<exists>v. Stats (store c) k = Some v \<and> numeric v}
       = length [web, db] - failures web_down_db_up [web, db]"
    by blast
  have "GetContainerStats web_down_db_up (Init 1) = Inr c
        \<and> dom (Stats (store c)) = {''/web'', ''db''}
        \<and> card (dom (Stats (store c))) = 2
        \<and> card {k. Stats (store c) k = Some error_result} = 1
        \<and> card {k. \<exists>v. Stats (store c) k = Some v \<and> numeric v} = 1"
    using c by (simp add: ks f)
  then have "\<exists>c. GetContainerStats web_down_db_up (Init 1) = Inr c
        \<and> dom (Stats (store c)) = {''/web'', ''db''}
        \<and> card (dom (Stats (store c))) = 2
        \<and> card {k. Stats (store c) k = Some error_result} = 1
        \<and> card {k. \<exists>v. Stats (store c) k = Some v \<and> numeric v} = 1" ..
  moreover have "Names web \<noteq> []" "Names db \<noteq> []" by (simp_all add: web_def db_def)
  ultimately show ?thesis using h1 h2 h4 h5 f by blast
qed

text \<open>
  The keys sent are pairwise distinct when the first names are distinct names as the
  Docker daemon reports them.
\<close>

lemma docker_name_key:
  assumes "docker_name a" "docker_name b"
    and "(if fa then a else TrimPrefix a ''/'') = (if fb then b else TrimPrefix b ''/'')"
  shows "a = b"
proof -
  from assms(1) obtain d as where a: "a = CHR ''/'' # d # as" "d \<noteq> CHR ''/''"
    by (auto simp: docker_name_def split: list.splits)
  from assms(2) obtain e bs where b: "b = CHR ''/'' # e # bs" "e \<noteq> CHR ''/''"
    by (auto simp: docker_name_def split: list.splits)
  from assms(3) show ?thesis
    unfolding a(1) b(1) using a(2) b(2) by (auto simp: TrimPrefix_def split: if_splits)
qed

lemma keys_sent_distinct:
  assumes "\<forall>s\<in>set items. docker_name (hd (Names s))"
    and "distinct (map (\<lambda>s. hd (Names s)) items)"
  shows "distinct (keys_sent env items)"
proof -
  have "inj_on (\<lambda>i. key_sent (items ! i) (replies env i)) {0..<length items}"
  proof (rule inj_onI)
    fix i j
    assume i: "i \<in> {0..<length items}" and j: "j \<in> {0..<length items}"
      and eq: "key_sent (items ! i) (replies env i) = key_sent (items ! j) (replies env j)"
    have "docker_name (hd (Names (items ! i)))" "docker_name (hd (Names (items ! j)))"
      using assms(1) i j by simp_all
    then have "hd (Names (items ! i)) = hd (Names (items ! j))"
      using eq unfolding key_sent_def by (rule docker_name_key)
    then show "i = j"
      using nth_eq_iff_index_eq [OF assms(2), of i j] i j by simp
  qed
  then show ?thesis by (simp add: keys_sent_def distinct_map)
qed

text \<open>
  The set of keys is not a function of the list of targets: the same list gives the key
  \<open>/web\<close> when the sampler fails and \<open>web\<close> when it succeeds. And distinct first
  names do not suffice for N keys: \<open>a\<close> and \<open>/a\<close>, both sampled without failure,
  share the key \<open>a\<close>.
\<close>

theorem key_set_depends_on_outcome:
  "listing web_down = listing web_up
   \<and> dom (Stats (store (projr (GetContainerStats web_down (Init 1))))) = {''/web''}
   \<and> dom (Stats (store (projr (GetContainerStats web_up (Init 1))))) = {''web''}
   \<and> distinct (map (\<lambda>s. hd (Names s)) [plain, slashed])
   \<and> failures plain_and_slashed [plain, slashed] = 0
   \<and> dom (Stats (store (projr (GetContainerStats plain_and_slashed (Init 1))))) = {''a''}"
proof -
  have "samplers web_down (Init 1) [web] = [Inr [Fetch ''c1'', Send [''/web'' \<mapsto> error_result]]]"
    by (simp add: samplers_def web_down_def unreachable_def collectStats_web_down)
  then have d: "dom (Stats (store (projr (GetContainerStats web_down (Init 1))))) = {''/web''}"
    by (simp add: GetContainerStats_def web_down_def resultChan_def aggregate_single)
  have "samplers web_up (Init 1) [web]
      = [Inr [Fetch ''c1'', Sleep (Interval (Init 1)), Fetch ''c1'',
              Send [''web'' \<mapsto> value_sent healthy]]]"
    by (simp add: samplers_def web_up_def healthy_def collectStats_web_up value_sent_def)
  then have u: "dom (Stats (store (projr (GetContainerStats web_up (Init 1))))) = {''web''}"
    by (simp add: GetContainerStats_def web_up_def resultChan_def aggregate_single)
  have l: "listing web_down = listing web_up" by (simp add: web_down_def web_up_def)
  have n: "distinct (map (\<lambda>s. hd (Names s)) [plain, slashed])"
    by (simp add: plain_def slashed_def)
  have f: "failures plain_and_slashed [plain, slashed] = 0"
    by (simp add: failures_def failed_def plain_and_slashed_def healthy_def)
  have "samplers plain_and_slashed (Init 1) [plain, slashed]
      = [Inr [Fetch ''c4'', Sleep (Interval (Init 1)), Fetch ''c4'',
              Send [''a'' \<mapsto> value_sent healthy]],
         Inr [Fetch ''c5'', Sleep (Interval (Init 1)), Fetch ''c5'',
              Send [''a'' \<mapsto> value_sent healthy]]]"
    using collectStats_healthy [of plain "''a''" "[]" "Init 1"]
      collectStats_healthy [of slashed "''/a''" "[]" "Init 1"]
    by (simp add: samplers_def plain_and_slashed_def plain_def slashed_def TrimPrefix_def upt_rec)
  then have p: "dom (Stats (store (projr (GetContainerStats plain_and_slashed (Init 1))))) = {''a''}"
    by (simp add: GetContainerStats_def plain_and_slashed_def resultChan_def aggregate_same_key)
  from l d u n f p show ?thesis by simp
qed

text \<open>
  C3. The claim: every key of the Aggregate, also the key of a sentinel, is the first
  name without its leading \<open>/\<close>.

  The four sentinel sends use \<open>Names[0]\<close> as it is; only the send of the percentages
  applies \<open>strings.TrimPrefix\<close>. For the container \<open>/web\<close>, whose statistics call
  fails, the Aggregate is keyed \<open>/web\<close>, not \<open>web\<close>.
\<close>

theorem sentinel_key_keeps_separator:
  "GetContainerStats web_down (Init 1) =
     Inr \<lparr>store = (Init 1)\<lparr>Stats := [''/web'' \<mapsto> error_result]\<rparr>,
          traces = [[Fetch ''c1'', Send [''/web'' \<mapsto> error_result]]]\<rparr>
   \<and> TrimPrefix (hd (Names web)) ''/'' = ''web''"
proof -
  have "samplers web_down (Init 1) [web] = [Inr [Fetch ''c1'', Send [''/web'' \<mapsto> error_result]]]"
    by (simp add: samplers_def web_down_def unreachable_def collectStats_web_down)
  then have "GetContainerStats web_down (Init 1) =
     Inr \<lparr>store = (Init 1)\<lparr>Stats := [''/web'' \<mapsto> error_result]\<rparr>,
          traces = [[Fetch ''c1'', Send [''/web'' \<mapsto> error_result]]]\<rparr>"
    by (simp add: GetContainerStats_def web_down_def resultChan_def aggregate_single)
  moreover have "TrimPrefix (hd (Names web)) ''/'' = ''web''"
    by (simp add: TrimPrefix_def web_def)
  ultimately show ?thesis by simp
qed

subsection \<open>The critical section\<close>

lemma step_invariant:
  assumes "step\<^sup>*\<^sup>* (start cs ms) s" and "StMu cs = None"
  shows "(pc s = Locking \<longrightarrow> Stats (shared s) = Stats cs \<and> chan s = ms
            \<and> StMu (shared s) \<noteq> Some Orchestrator)
       \<and> (pc s = Making \<longrightarrow> StMu (shared s) = Some Orchestrator \<and> chan s = ms)
       \<and> (pc s = Ranging \<longrightarrow> StMu (shared s) = Some Orchestrator
            \<and> foldl (++) (Stats (shared s)) (chan s) = aggregate ms)
       \<and> (pc s = Unlocking \<longrightarrow> StMu (shared s) = Some Orchestrator
            \<and> Stats (shared s) = aggregate ms)
       \<and> (pc s = Returned \<longrightarrow> StMu (shared s) \<noteq> Some Orchestrator
            \<and> Stats (shared s) = aggregate ms)
       \<and> set (reads s) \<subseteq> {Stats cs, aggregate ms}"
  using assms(1)
proof (induction rule: rtranclp_induct)
  case base
  show ?case using assms(2) by (simp add: start_def)
next
  case (step s t)
  from step.hyps(2) step.IH show ?case
  proof (cases rule: step.cases)
    case Lock
    with step.IH show ?thesis by simp
  next
    case Make
    with step.IH show ?thesis by (simp add: aggregate_def)
  next
    case (Copy m ms')
    with step.IH show ?thesis by simp
  next
    case Drained
    with step.IH show ?thesis by simp
  next
    case Unlock
    with step.IH show ?thesis by simp
  next
    case (ReaderLock i)
    with step.IH show ?thesis by (cases "pc s") simp_all
  next
    case (ReaderRead i)
    with step.IH show ?thesis by (cases "pc s") simp_all
  next
    case (ReaderUnlock i)
    with step.IH show ?thesis by (cases "pc s") simp_all
  qed
qed

text \<open>
  C9. In every state that the orchestrator and the readers can reach, each Aggregate a
  reader has read under the mutex is the one of before the cycle or the complete new one;
  the orchestrator holds the mutex from before the fresh map is made until all results
  are copied, and when it has returned the store holds the complete new Aggregate.
\<close>

theorem readers_never_see_partial_map:
  assumes "step\<^sup>*\<^sup>* (start cs ms) s" and "StMu cs = None"
  shows "set (reads s) \<subseteq> {Stats cs, aggregate ms}
       \<and> (pc s = Making \<or> pc s = Ranging \<or> pc s = Unlocking \<longrightarrow>
            StMu (shared s) = Some Orchestrator)
       \<and> (pc s = Returned \<longrightarrow> Stats (shared s) = aggregate ms)"
  using step_invariant [OF assms] by blast

lemma copy_loop:
  "step\<^sup>*\<^sup>* \<lparr>shared = c, pc = Ranging, chan = ms, reads = rs\<rparr>
     \<lparr>shared = c\<lparr>Stats := foldl (++) (Stats c) ms\<rparr>, pc = Ranging, chan = [], reads = rs\<rparr>"
proof (induction ms arbitrary: c)
  case Nil
  show ?case by simp
next
  case (Cons m ms)
  have "step \<lparr>shared = c, pc = Ranging, chan = m # ms, reads = rs\<rparr>
      \<lparr>shared = c\<lparr>Stats := Stats c ++ m\<rparr>, pc = Ranging, chan = ms, reads = rs\<rparr>"
    using step.Copy [of "\<lparr>shared = c, pc = Ranging, chan = m # ms, reads = rs\<rparr>" m ms] by simp
  moreover have "step\<^sup>*\<^sup>* \<lparr>shared = c\<lparr>Stats := Stats c ++ m\<rparr>, pc = Ranging, chan = ms, reads = rs\<rparr>
      \<lparr>shared = c\<lparr>Stats := foldl (++) (Stats c) (m # ms)\<rparr>, pc = Ranging, chan = [], reads = rs\<rparr>"
    using Cons.IH [of "c\<lparr>Stats := Stats c ++ m\<rparr>"] by simp
  ultimately show ?case by (rule converse_rtranclp_into_rtranclp)
qed

lemma reader_cycle:
  assumes "StMu c = None"
  shows "step\<^sup>*\<^sup>* \<lparr>shared = c, pc = p, chan = ms, reads = rs\<rparr>
     \<lparr>shared = c, pc = p, chan = ms, reads = rs @ [Stats c]\<rparr>"
proof -
  let ?l = "c\<lparr>StMu := Some (Reader i)\<rparr>"
  have e: "c\<lparr>StMu := None\<rparr> = c" using assms by (cases c) simp
  have 1: "step \<lparr>shared = c, pc = p, chan = ms, reads = rs\<rparr>
      \<lparr>shared = ?l, pc = p, chan = ms, reads = rs\<rparr>"
    using step.ReaderLock [of "\<lparr>shared = c, pc = p, chan = ms, reads = rs\<rparr>" i] assms by simp
  have 2: "step \<lparr>shared = ?l, pc = p, chan = ms, reads = rs\<rparr>
      \<lparr>shared = ?l, pc = p, chan = ms, reads = rs @ [Stats c]\<rparr>"
    using step.ReaderRead [of "\<lparr>shared = ?l, pc = p, chan = ms, reads = rs\<rparr>" i] by simp
  have 3: "step \<lparr>shared = ?l, pc = p, chan = ms, reads = rs @ [Stats c]\<rparr>
      \<lparr>shared = c, pc = p, chan = ms, reads = rs @ [Stats c]\<rparr>"
    using step.ReaderUnlock [of "\<lparr>shared = ?l, pc = p, chan = ms, reads = rs @ [Stats c]\<rparr>" i]
    by (simp add: e)
  from 1 2 3 show ?thesis by (meson converse_rtranclp_into_rtranclp rtranclp.rtrancl_refl)
qed

lemma critical_section_from:
  assumes "StMu c = None"
  shows "step\<^sup>*\<^sup>* \<lparr>shared = c, pc = Locking, chan = ms, reads = rs\<rparr>
     \<lparr>shared = c\<lparr>Stats := aggregate ms\<rparr>, pc = Returned, chan = [], reads = rs\<rparr>"
proof -
  let ?l = "c\<lparr>StMu := Some Orchestrator\<rparr>"
  have 1: "step \<lparr>shared = c, pc = Locking, chan = ms, reads = rs\<rparr>
      \<lparr>shared = ?l, pc = Making, chan = ms, reads = rs\<rparr>"
    using step.Lock [of "\<lparr>shared = c, pc = Locking, chan = ms, reads = rs\<rparr>"] assms by simp
  have 2: "step \<lparr>shared = ?l, pc = Making, chan = ms, reads = rs\<rparr>
      \<lparr>shared = ?l\<lparr>Stats := Map.empty\<rparr>, pc = Ranging, chan = ms, reads = rs\<rparr>"
    using step.Make [of "\<lparr>shared = ?l, pc = Making, chan = ms, reads = rs\<rparr>"] by simp
  have 3: "step\<^sup>*\<^sup>* \<lparr>shared = ?l\<lparr>Stats := Map.empty\<rparr>, pc = Ranging, chan = ms, reads = rs\<rparr>
      \<lparr>shared = ?l\<lparr>Stats := aggregate ms\<rparr>, pc = Ranging, chan = [], reads = rs\<rparr>"
    using copy_loop [of "?l\<lparr>Stats := Map.empty\<rparr>" ms rs] by (simp add: aggregate_def)
  have 4: "step \<lparr>shared = ?l\<lparr>Stats := aggregate ms\<rparr>, pc = Ranging, chan = [], reads = rs\<rparr>
      \<lparr>shared = ?l\<lparr>Stats := aggregate ms\<rparr>, pc = Unlocking, chan = [], reads = rs\<rparr>"
    using step.Drained [of "\<lparr>shared = ?l\<lparr>Stats := aggregate ms\<rparr>, pc = Ranging, chan = [], reads = rs\<rparr>"]
    by simp
  have 5: "step \<lparr>shared = ?l\<lparr>Stats := aggregate ms\<rparr>, pc = Unlocking, chan = [], reads = rs\<rparr>
      \<lparr>shared = c\<lparr>Stats := aggregate ms\<rparr>, pc = Returned, chan = [], reads = rs\<rparr>"
  proof -
    have e: "c\<lparr>Stats := aggregate ms, StMu := None\<rparr> = c\<lparr>Stats := aggregate ms\<rparr>"
      using assms by (cases c) simp
    show ?thesis
      using step.Unlock [of "\<lparr>shared = ?l\<lparr>Stats := aggregate ms\<rparr>, pc = Unlocking, chan = [], reads = rs\<rparr>"]
      by (simp add: e)
  qed
  from 1 2 3 4 5 show ?thesis by (meson converse_rtranclp_into_rtranclp rtranclp.rtrancl_into_rtrancl)
qed

lemma read_cycle_read:
  assumes "StMu c = None"
  shows "step\<^sup>*\<^sup>* (start c ms)
     \<lparr>shared = c\<lparr>Stats := aggregate ms\<rparr>, pc = Returned, chan = [],
      reads = [Stats c, aggregate ms]\<rparr>"
proof -
  have 1: "step\<^sup>*\<^sup>* (start c ms) \<lparr>shared = c, pc = Locking, chan = ms, reads = [Stats c]\<rparr>"
    using reader_cycle [OF assms, of Locking ms "[]"] by (simp add: start_def)
  have 2: "step\<^sup>*\<^sup>* \<lparr>shared = c, pc = Locking, chan = ms, reads = [Stats c]\<rparr>
      \<lparr>shared = c\<lparr>Stats := aggregate ms\<rparr>, pc = Returned, chan = [], reads = [Stats c]\<rparr>"
    by (rule critical_section_from [OF assms])
  have "StMu (c\<lparr>Stats := aggregate ms\<rparr>) = None" using assms by simp
  from reader_cycle [OF this, of Returned "[]" "[Stats c]"]
  have 3: "step\<^sup>*\<^sup>* \<lparr>shared = c\<lparr>Stats := aggregate ms\<rparr>, pc = Returned, chan = [], reads = [Stats c]\<rparr>
      \<lparr>shared = c\<lparr>Stats := aggregate ms\<rparr>, pc = Returned, chan = [],
       reads = [Stats c, aggregate ms]\<rparr>"
    by simp
  from 1 2 3 show ?thesis by (meson rtranclp_trans)
qed

theorem readers_never_see_partial_map_witness:
  "step\<^sup>*\<^sup>* (start (Init 1) [[''/web'' \<mapsto> error_result], [''db'' \<mapsto> value_sent healthy]])
     \<lparr>shared = (Init 1)\<lparr>Stats := aggregate [[''/web'' \<mapsto> error_result], [''db'' \<mapsto> value_sent healthy]]\<rparr>,
      pc = Returned, chan = [],
      reads = [Stats (Init 1), aggregate [[''/web'' \<mapsto> error_result], [''db'' \<mapsto> value_sent healthy]]]\<rparr>
   \<and> StMu (Init 1) = None
   \<and> set [Stats (Init 1), aggregate [[''/web'' \<mapsto> error_result], [''db'' \<mapsto> value_sent healthy]]]
       \<subseteq> {Stats (Init 1), aggregate [[''/web'' \<mapsto> error_result], [''db'' \<mapsto> value_sent healthy]]}"
proof -
  have h: "StMu (Init 1) = None" by (simp add: Init_def)
  have r: "step\<^sup>*\<^sup>* (start (Init 1) [[''/web'' \<mapsto> error_result], [''db'' \<mapsto> value_sent healthy]])
     \<lparr>shared = (Init 1)\<lparr>Stats := aggregate [[''/web'' \<mapsto> error_result], [''db'' \<mapsto> value_sent healthy]]\<rparr>,
      pc = Returned, chan = [],
      reads = [Stats (Init 1), aggregate [[''/web'' \<mapsto> error_result], [''db'' \<mapsto> value_sent healthy]]]\<rparr>"
    by (rule read_cycle_read [OF h])
  from readers_never_see_partial_map [OF r h] r h show ?thesis by simp
qed

end
